theory Spec2Isabelle
  imports Main
begin

section \<open>Data model of \<^verbatim>\<open>src/app/project.go\<close>\<close>

text \<open>
  A Go \<^verbatim>\<open>map[string]T\<close> is modelled as an association list \<open>(string \<times> T) list\<close>:
  the list is the order in which one \<^verbatim>\<open>range\<close> loop enumerates the map, lookups
  \<^verbatim>\<open>m[k]\<close> are \<open>map_of\<close>.  Go does not fix the enumeration order of a map, so two
  association lists with the same entries stand for the same Go map.  The keys of a Go map
  are unique: \<open>distinct (map fst m)\<close>.
\<close>

text \<open>
  The condition of a dependency.  The type and its constants are declared outside
  \<^verbatim>\<open>project.go\<close>; \<^verbatim>\<open>waitIfNeeded\<close> switches on the two constants below and has
  no default branch, so every other value falls through the switch.
\<close>

datatype ProcessCondition =
    ProcessConditionCompleted
  | ProcessConditionCompletedSuccessfully
  | ProcessConditionOther string

record ProcessDependency =
  Condition :: ProcessCondition

record ProcessConfig =
  Name :: string
  Disabled :: bool
  DependsOn :: "(string \<times> ProcessDependency) list"

datatype ProcessStatus =
    ProcessStatePending
  | ProcessStateDisabled
  | ProcessStateRunning
  | ProcessStateCompleted
  | ProcessStateError
  | ProcessStateSkipped

record ProcessState =
  StateName :: string
  Status :: ProcessStatus
  Restarts :: int
  ExitCode :: int

text \<open>
  The process handle.  \<^verbatim>\<open>NewProcess\<close> is declared outside \<^verbatim>\<open>project.go\<close>; the
  handle keeps what \<^verbatim>\<open>runProcess\<close> passes to it: the ambient environment, the
  configuration, the state record found by \<^verbatim>\<open>GetProcessState\<close> (\<open>None\<close> for
  \<^verbatim>\<open>nil\<close>) and the attempt counter.  Loggers and log lines are not modelled.
\<close>

record Process =
  globalEnv :: "string list"
  procConf :: ProcessConfig
  procState :: "ProcessState option"
  replica :: nat

text \<open>
  The errors of \<^verbatim>\<open>project.go\<close>, one constructor per \<^verbatim>\<open>fmt.Errorf\<close> format, with
  the values the format prints.
\<close>

datatype error =
    NoSuchProcess string
  | AlreadyRunning string
  | NotRunning string
  | UnmetDependency string string int
  | NoConfigFiles string

text \<open>
  The project.  \<open>runningProcesses\<close> is \<open>None\<close> while the Go map is \<^verbatim>\<open>nil\<close>.
  \<open>tasks\<close> lists, in spawn order, the handles for which \<^verbatim>\<open>runProcess\<close> did
  \<^verbatim>\<open>p.wg.Add(1)\<close> and started a goroutine: these are the tasks \<^verbatim>\<open>p.wg.Wait()\<close>
  waits for.
\<close>

record Project =
  Processes :: "(string \<times> ProcessConfig) list"
  Environment :: "string list"
  processStates :: "string \<rightharpoonup> ProcessState"
  runningProcesses :: "(string \<rightharpoonup> Process) option"
  tasks :: "Process list"

section \<open>The dependency walker\<close>

text \<open>
  Modelled from the spec: \<^verbatim>\<open>GetDependencies\<close> is declared outside
  \<^verbatim>\<open>project.go\<close>.  The spec takes the dependencies of a process to be the names of
  its \<^verbatim>\<open>DependsOn\<close> mapping: the keys, in the order the map is enumerated.
\<close>

definition GetDependencies :: "ProcessConfig \<Rightarrow> string list" where
  "GetDependencies process = map fst (DependsOn process)"

text \<open>The second loop of \<^verbatim>\<open>getProcesses\<close>, over the given names.\<close>

fun getProcesses_named ::
  "Project \<Rightarrow> string list \<Rightarrow> ProcessConfig list \<Rightarrow> ProcessConfig list \<times> error option" where
  "getProcesses_named p [] processes = (processes, None)"
| "getProcesses_named p (name # names) processes =
     (case map_of (Processes p) name of
        Some proc \<Rightarrow>
          if Disabled proc then getProcesses_named p names processes
          else getProcesses_named p names (processes @ [proc\<lparr>Name := name\<rparr>])
      | None \<Rightarrow> (processes, Some (NoSuchProcess name)))"

definition getProcesses :: "Project \<Rightarrow> string list \<Rightarrow> ProcessConfig list \<times> error option" where
  "getProcesses p names =
     (if names = [] then
        ([proc\<lparr>Name := name\<rparr>. (name, proc) \<leftarrow> Processes p, \<not> Disabled proc], None)
      else getProcesses_named p names [])"

text \<open>
  A \<^verbatim>\<open>ProcessFunc\<close> is a closure: it may change what it captured (the state \<open>'s\<close>)
  and may return an error.
\<close>

type_synonym 's ProcessFunc = "ProcessConfig \<Rightarrow> 's \<Rightarrow> error option \<times> 's"

text \<open>
  The \<^verbatim>\<open>for\<close> loop of \<^verbatim>\<open>withProcesses\<close> over the processes that
  \<^verbatim>\<open>getProcesses\<close> returned.  The recursive call of \<^verbatim>\<open>withProcesses\<close> on the
  dependencies is \<^verbatim>\<open>getProcesses\<close> followed by this loop again.  \<^verbatim>\<open>done\<close> is a
  Go map, shared by reference by all the calls: the model returns it.
\<close>

function withProcesses_loop ::
  "Project \<Rightarrow> ProcessConfig list \<Rightarrow> 's ProcessFunc \<Rightarrow> string set \<Rightarrow> 's
     \<Rightarrow> error option \<times> string set \<times> 's" where
  "withProcesses_loop p [] fn done s = (None, done, s)"
| "withProcesses_loop p (process # rest) fn done s =
     (if Name process \<in> done then withProcesses_loop p rest fn done s
      else
        let done1 = insert (Name process) done;
            dependencies = GetDependencies process;
            (err, done2, s2) =
              (if dependencies \<noteq> [] then
                 (case getProcesses p dependencies of
                    (processes, Some e) \<Rightarrow> (Some e, done1, s)
                  | (processes, None) \<Rightarrow> withProcesses_loop p processes fn done1 s)
               else (None, done1, s))
        in case err of
             Some e \<Rightarrow> (Some e, done2, s2)
           | None \<Rightarrow>
               (case fn process s2 of
                  (Some e, s3) \<Rightarrow> (Some e, done2, s3)
                | (None, s3) \<Rightarrow> withProcesses_loop p rest fn done2 s3))"
  by pat_completeness auto

text \<open>
  Termination.  The recursion is nested: the loop goes on with the \<^verbatim>\<open>done\<close> map that
  the recursive call left.  Every call marks a name that was not marked, and the names come
  from the declared processes, so the number of unmarked names decreases.
\<close>

lemma getProcesses_named_names:
  "getProcesses_named p names acc = (processes, err) \<Longrightarrow>
   Name ` set processes \<subseteq> Name ` set acc \<union> fst ` set (Processes p)"
proof (induction names arbitrary: acc)
  case Nil
  then show ?case by auto
next
  case (Cons name names)
  show ?case
  proof (cases "map_of (Processes p) name")
    case None
    with Cons.prems show ?thesis by auto
  next
    case (Some proc)
    then have k: "name \<in> fst ` set (Processes p)"
      by (metis domI dom_map_of_conv_image_fst)
    show ?thesis
    proof (cases "Disabled proc")
      case True
      with Some Cons.prems Cons.IH [of acc] show ?thesis by simp
    next
      case False
      with Some Cons.prems Cons.IH [of "acc @ [proc\<lparr>Name := name\<rparr>]"] k show ?thesis
        by auto
    qed
  qed
qed

lemma getProcesses_names:
  assumes "getProcesses p names = (processes, err)"
  shows "Name ` set processes \<subseteq> fst ` set (Processes p)"
proof (cases "names = []")
  case True
  with assms have
    "processes = [proc\<lparr>Name := name\<rparr>. (name, proc) \<leftarrow> Processes p, \<not> Disabled proc]"
    by (simp add: getProcesses_def)
  then show ?thesis by force
next
  case False
  with assms have "getProcesses_named p names [] = (processes, err)"
    by (simp add: getProcesses_def)
  from getProcesses_named_names [OF this] show ?thesis by simp
qed

lemma withProcesses_loop_dom_mono:
  "withProcesses_loop_dom (p, procs, fn, done, s) \<Longrightarrow>
   done \<subseteq> fst (snd (withProcesses_loop p procs fn done s))"
proof (induction p procs fn "done" s rule: withProcesses_loop.pinduct)
  case (1 p fn "done" s)
  then show ?case by (simp add: withProcesses_loop.psimps)
next
  case (2 p process rest fn "done" s)
  show ?case
  proof (cases "Name process \<in> done")
    case True
    with 2 show ?thesis by (simp add: withProcesses_loop.psimps)
  next
    case False
    define done1 where "done1 = insert (Name process) done"
    define r1 where "r1 =
      (if GetDependencies process \<noteq> [] then
         (case getProcesses p (GetDependencies process) of
            (processes, Some e) \<Rightarrow> (Some e, done1, s)
          | (processes, None) \<Rightarrow> withProcesses_loop p processes fn done1 s)
       else (None, done1, s))"
    obtain err d2 s2 where r1: "r1 = (err, d2, s2)"
      by (cases r1) auto
    have res: "withProcesses_loop p (process # rest) fn done s =
      (case err of
         Some e \<Rightarrow> (Some e, d2, s2)
       | None \<Rightarrow>
           (case fn process s2 of
              (Some e, s3) \<Rightarrow> (Some e, d2, s3)
            | (None, s3) \<Rightarrow> withProcesses_loop p rest fn d2 s3))"
      using "2.hyps" False r1
      by (simp add: withProcesses_loop.psimps Let_def r1_def [symmetric] done1_def [symmetric])
    have a: "done1 \<subseteq> d2"
    proof (cases "GetDependencies process \<noteq> []")
      case False
      with r1 show ?thesis by (simp add: r1_def)
    next
      case True
      obtain processes e where gp: "getProcesses p (GetDependencies process) = (processes, e)"
        by (cases "getProcesses p (GetDependencies process)") auto
      show ?thesis
      proof (cases e)
        case (Some x)
        with True gp r1 show ?thesis by (simp add: r1_def)
      next
        case None
        with "2.IH"(2) [OF False done1_def refl True gp [symmetric]]
        have "done1 \<subseteq> fst (snd (withProcesses_loop p processes fn done1 s))" by simp
        with True gp None r1 show ?thesis by (simp add: r1_def)
      qed
    qed
    have b: "d2 \<subseteq> fst (snd (withProcesses_loop p (process # rest) fn done s))"
    proof (cases err)
      case (Some e)
      then show ?thesis by (simp add: res)
    next
      case None
      obtain e3 s3 where f: "fn process s2 = (e3, s3)"
        by (cases "fn process s2") auto
      show ?thesis
      proof (cases e3)
        case (Some e)
        with None f show ?thesis by (simp add: res)
      next
        case None2: None
        have "d2 \<subseteq> fst (snd (withProcesses_loop p rest fn d2 s3))"
          using "2.IH"(3) [OF False done1_def refl _ _ _ None _ None2]
            r1 f None2 None
          by (simp add: r1_def)
        with f None None2 show ?thesis by (simp add: res)
      qed
    qed
    from a b show ?thesis by (auto simp: done1_def)
  qed
qed

lemma withProcesses_loop_total: "All withProcesses_loop_dom"
proof (relation "measures
    [\<lambda>(p, procs, fn, done, s). card ((fst ` set (Processes p) \<union> Name ` set procs) - done),
     \<lambda>(p, procs, fn, done, s). length procs]",
    goal_cases)
  case 1
  show ?case by simp
next
  case (2 p process rest fn "done" s)
  have "card ((fst ` set (Processes p) \<union> Name ` set rest) - done)
      \<le> card ((fst ` set (Processes p) \<union> Name ` set (process # rest)) - done)"
    by (rule card_mono) auto
  then show ?case by auto
next
  case (3 p process rest fn "done" s x xa xb y)
  from getProcesses_names [OF 3(5) [symmetric]]
  have "(fst ` set (Processes p) \<union> Name ` set xb) - x
      \<subset> (fst ` set (Processes p) \<union> Name ` set (process # rest)) - done"
    using 3(1,2) by auto
  then have "card ((fst ` set (Processes p) \<union> Name ` set xb) - x)
      < card ((fst ` set (Processes p) \<union> Name ` set (process # rest)) - done)"
    by (intro psubset_card_mono) auto
  then show ?case by simp
next
  case (4 p process rest fn "done" s x xa xb xc y xd ya xe yb)
  have sub: "x \<subseteq> xd"
  proof (cases "xa \<noteq> []")
    case False
    with 4 show ?thesis by auto
  next
    case True
    obtain processes e where gp: "getProcesses p xa = (processes, e)"
      by (cases "getProcesses p xa") auto
    show ?thesis
    proof (cases e)
      case (Some err)
      with True gp 4 show ?thesis by auto
    next
      case None
      with True gp 4(4) have xb: "xb = withProcesses_loop p processes fn x s" by simp
      have "withProcesses_loop_dom (p, processes, fn, x, s)"
        using 4(10) True gp None by simp
      from withProcesses_loop_dom_mono [OF this] xb 4(5,6) show ?thesis
        by (metis fst_conv snd_conv)
    qed
  qed
  have "(fst ` set (Processes p) \<union> Name ` set rest) - xd
      \<subseteq> (fst ` set (Processes p) \<union> Name ` set (process # rest)) - done"
    using sub 4(2) by auto
  then have "card ((fst ` set (Processes p) \<union> Name ` set rest) - xd)
      \<le> card ((fst ` set (Processes p) \<union> Name ` set (process # rest)) - done)"
    by (intro card_mono) auto
  then show ?case by auto
qed

termination withProcesses_loop
  by (rule withProcesses_loop_total)

declare withProcesses_loop.simps(2) [simp del]

text \<open>\<^verbatim>\<open>withProcesses\<close>: \<^verbatim>\<open>getProcesses\<close>, then the loop.\<close>

definition withProcesses ::
  "Project \<Rightarrow> string list \<Rightarrow> 's ProcessFunc \<Rightarrow> string set \<Rightarrow> 's
     \<Rightarrow> error option \<times> string set \<times> 's" where
  "withProcesses p names fn done s =
     (case getProcesses p names of
        (processes, Some err) \<Rightarrow> (Some err, done, s)
      | (processes, None) \<Rightarrow> withProcesses_loop p processes fn done s)"

text \<open>\<^verbatim>\<open>WithProcesses\<close> starts from the empty \<^verbatim>\<open>done\<close> map and returns the error.\<close>

definition WithProcesses ::
  "Project \<Rightarrow> string list \<Rightarrow> 's ProcessFunc \<Rightarrow> 's \<Rightarrow> error option \<times> 's" where
  "WithProcesses p names fn s = (case withProcesses p names fn {} s of (err, done, s') \<Rightarrow> (err, s'))"

text \<open>
  The closure of \<^verbatim>\<open>Run\<close> appends the process to \<^verbatim>\<open>runOrder\<close>; the closure of
  \<^verbatim>\<open>GetDependenciesOrderNames\<close> appends its name to \<^verbatim>\<open>order\<close>.  Neither returns
  an error.
\<close>

definition appendProcess :: "ProcessConfig list ProcessFunc" where
  "appendProcess process runOrder = (None, runOrder @ [process])"

definition appendName :: "string list ProcessFunc" where
  "appendName process order = (None, order @ [Name process])"

definition GetDependenciesOrderNames :: "Project \<Rightarrow> string list \<times> error option" where
  "GetDependenciesOrderNames p =
     (case WithProcesses p [] appendName [] of (err, order) \<Rightarrow> (order, err))"

section \<open>The running registry and the supervisor\<close>

text \<open>
  A Go call either returns a value or panics; a call that waits either returns or never does.
  The only panic that \<^verbatim>\<open>project.go\<close> can raise by itself is the write to a \<^verbatim>\<open>nil\<close>
  map.
\<close>

datatype panic = AssignmentToNilMap

datatype 'a outcome = Returns 'a | Blocks

text \<open>
  \<^verbatim>\<open>p.processStates\<close> is \<^verbatim>\<open>nil\<close> until \<^verbatim>\<open>initProcessStates\<close> makes it; it is
  written nowhere else and reading a \<^verbatim>\<open>nil\<close> map finds nothing, so the empty map stands
  for \<^verbatim>\<open>nil\<close>.
\<close>

definition initProcessStates :: "Project \<Rightarrow> Project" where
  "initProcessStates p =
     p\<lparr>processStates :=
         map_of (map (\<lambda>(key, proc).
           (key, \<lparr>StateName = key,
                  Status = (if Disabled proc then ProcessStateDisabled else ProcessStatePending),
                  Restarts = 0, ExitCode = 0\<rparr>)) (Processes p))\<rparr>"

definition GetProcessState :: "Project \<Rightarrow> string \<Rightarrow> ProcessState option" where
  "GetProcessState p name = processStates p name"

text \<open>
  Modelled from the spec: \<^verbatim>\<open>NewProcess\<close> and \<^verbatim>\<open>GetName\<close> are declared outside
  \<^verbatim>\<open>project.go\<close>.  The spec's handle is built from the ambient environment, the
  \<^verbatim>\<open>ProcessConfig\<close>, its \<^verbatim>\<open>ProcessState\<close> and an attempt counter; a process is
  identified by the name of its configuration.
\<close>

definition NewProcess ::
  "string list \<Rightarrow> ProcessConfig \<Rightarrow> ProcessState option \<Rightarrow> nat \<Rightarrow> Process" where
  "NewProcess env proc state n =
     \<lparr>globalEnv = env, procConf = proc, procState = state, replica = n\<rparr>"

definition GetName :: "Process \<Rightarrow> string" where
  "GetName process = Name (procConf process)"

text \<open>
  The registry.  \<^verbatim>\<open>p.runningProcesses\<close> is \<^verbatim>\<open>nil\<close> (\<open>None\<close>) until \<^verbatim>\<open>Run\<close> makes
  it.  Writing to the \<^verbatim>\<open>nil\<close> map panics; reading it finds nothing; deleting from it
  does nothing.
\<close>

definition addRunningProcess :: "Project \<Rightarrow> Process \<Rightarrow> panic + Project" where
  "addRunningProcess p process =
     (case runningProcesses p of
        None \<Rightarrow> Inl AssignmentToNilMap
      | Some m \<Rightarrow> Inr (p\<lparr>runningProcesses := Some (m(GetName process \<mapsto> process))\<rparr>))"

definition getRunningProcess :: "Project \<Rightarrow> string \<Rightarrow> Process option" where
  "getRunningProcess p name =
     (case runningProcesses p of None \<Rightarrow> None | Some m \<Rightarrow> m name)"

definition removeRunningProcess :: "Project \<Rightarrow> string \<Rightarrow> Project" where
  "removeRunningProcess p name =
     (case runningProcesses p of
        None \<Rightarrow> p
      | Some m \<Rightarrow> p\<lparr>runningProcesses := Some (m(name := None))\<rparr>)"

text \<open>
  \<^verbatim>\<open>runProcess\<close>, up to the \<^verbatim>\<open>go\<close> statement: the handle is built with attempt
  counter 1 and registered; if the registration panics nothing more happens, else
  \<^verbatim>\<open>p.wg.Add(1)\<close> and the task is spawned.  The body of the task is \<open>task\<close> below.
\<close>

definition runProcess :: "Project \<Rightarrow> ProcessConfig \<Rightarrow> panic + Project" where
  "runProcess p proc =
     (let process = NewProcess (Environment p) proc (GetProcessState p (Name proc)) 1 in
      case addRunningProcess p process of
        Inl e \<Rightarrow> Inl e
      | Inr p1 \<Rightarrow> Inr (p1\<lparr>tasks := tasks p1 @ [process]\<rparr>))"

text \<open>
  What a task does, as the sequence of the calls it makes.  \<open>EvWaitForCompletion k w\<close> is
  \<^verbatim>\<open>WaitForCompletion(w)\<close> on the handle registered under \<open>k\<close>.
\<close>

datatype event =
    EvWaitForCompletion string string
  | EvWontRun string
  | EvRun string
  | EvWgDone
  | EvRemoveRunningProcess string

text \<open>
  \<^verbatim>\<open>waitIfNeeded\<close>.  The loop runs over the keys of \<^verbatim>\<open>process.DependsOn\<close>.  The
  registry is read once for each key, at the moment the loop reaches it:
  \<open>getRunningProcess p k\<close> stands for what the registry answers then.
  \<^verbatim>\<open>WaitForCompletion\<close> belongs to the handle, outside \<^verbatim>\<open>project.go\<close>; by the spec
  it blocks, with no timeout, until the handle has reached a terminal status and then
  returns the exit code.  The parameter \<open>wait\<close> says, for a handle and a waiter, whether
  the call returns, and with which exit code, or blocks for ever.  The result is the waits
  made, and the error returned if the function returns.
\<close>

definition dependencyCondition :: "ProcessConfig \<Rightarrow> string \<Rightarrow> ProcessCondition" where
  "dependencyCondition process k =
     (case map_of (DependsOn process) k of
        Some dep \<Rightarrow> Condition dep
      | None \<Rightarrow> ProcessConditionOther [])"

fun waitIfNeeded_loop ::
  "Project \<Rightarrow> (Process \<Rightarrow> string \<Rightarrow> int outcome) \<Rightarrow> ProcessConfig \<Rightarrow> string list
     \<Rightarrow> event list \<times> error option outcome" where
  "waitIfNeeded_loop p wait process [] = ([], Returns None)"
| "waitIfNeeded_loop p wait process (k # ks) =
     (case getRunningProcess p k of
        None \<Rightarrow> waitIfNeeded_loop p wait process ks
      | Some runningProc \<Rightarrow>
          (case dependencyCondition process k of
             ProcessConditionCompleted \<Rightarrow>
               (case wait runningProc (Name process) of
                  Blocks \<Rightarrow> ([EvWaitForCompletion k (Name process)], Blocks)
                | Returns exitCode \<Rightarrow>
                    (case waitIfNeeded_loop p wait process ks of
                       (evs, r) \<Rightarrow> (EvWaitForCompletion k (Name process) # evs, r)))
           | ProcessConditionCompletedSuccessfully \<Rightarrow>
               (case wait runningProc (Name process) of
                  Blocks \<Rightarrow> ([EvWaitForCompletion k (Name process)], Blocks)
                | Returns exitCode \<Rightarrow>
                    if exitCode \<noteq> 0 then
                      ([EvWaitForCompletion k (Name process)],
                       Returns (Some (UnmetDependency (Name process) k exitCode)))
                    else
                      (case waitIfNeeded_loop p wait process ks of
                         (evs, r) \<Rightarrow> (EvWaitForCompletion k (Name process) # evs, r)))
           | ProcessConditionOther c \<Rightarrow> waitIfNeeded_loop p wait process ks))"

definition waitIfNeeded ::
  "Project \<Rightarrow> (Process \<Rightarrow> string \<Rightarrow> int outcome) \<Rightarrow> ProcessConfig
     \<Rightarrow> event list \<times> error option outcome" where
  "waitIfNeeded p wait process = waitIfNeeded_loop p wait process (map fst (DependsOn process))"

text \<open>
  The goroutine of \<^verbatim>\<open>runProcess\<close>: the dependency wait; if it returns, \<^verbatim>\<open>WontRun\<close>
  or \<^verbatim>\<open>Run\<close>, and after that call the deferred calls in reverse order of their
  \<^verbatim>\<open>defer\<close>.  If a wait blocks for ever the task makes no further call.
\<close>

definition task ::
  "Project \<Rightarrow> (Process \<Rightarrow> string \<Rightarrow> int outcome) \<Rightarrow> Process \<Rightarrow> event list" where
  "task p wait process =
     (case waitIfNeeded p wait (procConf process) of
        (evs, Blocks) \<Rightarrow> evs
      | (evs, Returns (Some err)) \<Rightarrow>
          evs @ [EvWontRun (GetName process), EvWgDone, EvRemoveRunningProcess (GetName process)]
      | (evs, Returns None) \<Rightarrow>
          evs @ [EvRun (GetName process), EvWgDone, EvRemoveRunningProcess (GetName process)])"

text \<open>The loop of \<^verbatim>\<open>Run\<close> over \<^verbatim>\<open>runOrder\<close>; a panic ends it.\<close>

fun runProcesses :: "Project \<Rightarrow> ProcessConfig list \<Rightarrow> panic + Project" where
  "runProcesses p [] = Inr p"
| "runProcesses p (proc # runOrder) =
     (case runProcess p proc of
        Inl e \<Rightarrow> Inl e
      | Inr p1 \<Rightarrow> runProcesses p1 runOrder)"

text \<open>
  \<^verbatim>\<open>Run\<close>: the states, a new empty registry, the walk with the appending closure, whose
  error result is dropped, then \<^verbatim>\<open>runProcess\<close> for each process of \<^verbatim>\<open>runOrder\<close>.
  The result is the project when \<^verbatim>\<open>Run\<close> reaches \<^verbatim>\<open>p.wg.Wait()\<close>, which waits for
  the tasks of that project.
\<close>

definition Run :: "Project \<Rightarrow> panic + Project" where
  "Run p =
     (let p1 = initProcessStates p;
          p2 = p1\<lparr>runningProcesses := Some Map.empty\<rparr>;
          runOrder = snd (WithProcesses p2 [] appendProcess [])
      in runProcesses p2 runOrder)"

definition StartProcess :: "Project \<Rightarrow> string \<Rightarrow> panic + (error option \<times> Project)" where
  "StartProcess p name =
     (case getRunningProcess p name of
        Some proc \<Rightarrow> Inr (Some (AlreadyRunning name), p)
      | None \<Rightarrow>
          (case map_of (Processes p) name of
             Some proc \<Rightarrow>
               (case runProcess p (proc\<lparr>Name := name\<rparr>) of
                  Inl e \<Rightarrow> Inl e
                | Inr p1 \<Rightarrow> Inr (None, p1))
           | None \<Rightarrow> Inr (Some (NoSuchProcess name), p)))"

text \<open>
  \<^verbatim>\<open>StopProcess\<close>: the error, and the handles on which \<^verbatim>\<open>stop()\<close> was called.
\<close>

definition StopProcess :: "Project \<Rightarrow> string \<Rightarrow> error option \<times> Process list" where
  "StopProcess p name =
     (case getRunningProcess p name of
        None \<Rightarrow> (Some (NotRunning name), [])
      | Some proc \<Rightarrow> (None, [proc]))"

section \<open>Auto-discovery of the compose file\<close>

text \<open>
  The file system is the parameter \<open>exists\<close> (\<^verbatim>\<open>os.Stat\<close> returns no error), and
  \<open>join\<close> is \<^verbatim>\<open>filepath.Join\<close>.  The result of \<^verbatim>\<open>AutoDiscoverComposeFile\<close> is the
  file name, the error and the warnings logged.
\<close>

fun findFiles :: "(string \<Rightarrow> bool) \<Rightarrow> (string \<Rightarrow> string \<Rightarrow> string) \<Rightarrow> string list \<Rightarrow> string
     \<Rightarrow> string list" where
  "findFiles exists join [] pwd = []"
| "findFiles exists join (n # names) pwd =
     (let f = join pwd n in
      if exists f then f # findFiles exists join names pwd
      else findFiles exists join names pwd)"

definition DefaultFileNames :: "string list" where
  "DefaultFileNames =
     [''compose.yml'', ''compose.yaml'', ''process-compose.yml'', ''process-compose.yaml'']"

fun strings_Join :: "string list \<Rightarrow> string \<Rightarrow> string" where
  "strings_Join [] sep = []"
| "strings_Join [x] sep = x"
| "strings_Join (x # y # ys) sep = x @ sep @ strings_Join (y # ys) sep"

definition AutoDiscoverComposeFile ::
  "(string \<Rightarrow> bool) \<Rightarrow> (string \<Rightarrow> string \<Rightarrow> string) \<Rightarrow> string
     \<Rightarrow> string \<times> error option \<times> string list" where
  "AutoDiscoverComposeFile exists join pwd =
     (let candidates = findFiles exists join DefaultFileNames pwd in
      if length candidates > 0 then
        (let winner = hd candidates in
         if length candidates > 1 then
           (winner, None,
            [''Found multiple config files with supported names: '' @ strings_Join candidates '', '',
             ''Using '' @ winner])
         else (winner, None, []))
      else ([], Some (NoConfigFiles pwd), []))"

section \<open>Notions used to state the properties\<close>

text \<open>The events of a task that start the process or give it up.\<close>

fun launches :: "event \<Rightarrow> bool" where
  "launches (EvRun n) = True"
| "launches (EvWontRun n) = True"
| "launches ev = False"

text \<open>
  The processes on which the walk recurses for one process: none when it has no dependency
  (\<^verbatim>\<open>len(dependencies) > 0\<close> fails), else what \<^verbatim>\<open>getProcesses\<close> returns for them.
\<close>

definition depProcesses :: "Project \<Rightarrow> ProcessConfig \<Rightarrow> ProcessConfig list \<times> error option" where
  "depProcesses p process =
     (if GetDependencies process = [] then ([], None)
      else getProcesses p (GetDependencies process))"

text \<open>
  The walk as a relation, for a visitor that returns no error: \<open>walks p procs done (err, done', t)\<close>
  when the loop over \<open>procs\<close>, started with the marks \<open>done\<close>, ends with the error \<open>err\<close> and
  the marks \<open>done'\<close> after calling the visitor on the processes \<open>t\<close>, in this order.
\<close>

inductive walks ::
  "Project \<Rightarrow> ProcessConfig list \<Rightarrow> string set
     \<Rightarrow> error option \<times> string set \<times> ProcessConfig list \<Rightarrow> bool" where
  walks_Nil: "walks p [] done (None, done, [])"
| walks_Skip:
    "Name process \<in> done \<Longrightarrow> walks p rest done r \<Longrightarrow> walks p (process # rest) done r"
| walks_Missing:
    "Name process \<notin> done \<Longrightarrow> depProcesses p process = (procs, Some e) \<Longrightarrow>
     walks p (process # rest) done (Some e, insert (Name process) done, [])"
| walks_DepsErr:
    "Name process \<notin> done \<Longrightarrow> depProcesses p process = (procs, None) \<Longrightarrow>
     walks p procs (insert (Name process) done) (Some e, done2, t1) \<Longrightarrow>
     walks p (process # rest) done (Some e, done2, t1)"
| walks_Visit:
    "Name process \<notin> done \<Longrightarrow> depProcesses p process = (procs, None) \<Longrightarrow>
     walks p procs (insert (Name process) done) (None, done2, t1) \<Longrightarrow>
     walks p rest done2 (err, done3, t2) \<Longrightarrow>
     walks p (process # rest) done (err, done3, t1 @ process # t2)"

text \<open>
  The dependency graph of a project.  A name is declared when \<^verbatim>\<open>p.Processes\<close> has it,
  enabled when moreover the process is not disabled.  \<open>dependsOn\<close> holds the edges between
  enabled processes; the walk starts from the roots and \<open>reachable\<close> is what it can reach
  through enabled processes.  A configuration is resolved when it is an enabled process of
  the project with its name filled in.
\<close>

definition enabled :: "Project \<Rightarrow> string \<Rightarrow> bool" where
  "enabled p n = (case map_of (Processes p) n of Some proc \<Rightarrow> \<not> Disabled proc | None \<Rightarrow> False)"

definition declared :: "Project \<Rightarrow> string \<Rightarrow> bool" where
  "declared p n = (map_of (Processes p) n \<noteq> None)"

definition dependencies :: "Project \<Rightarrow> string \<Rightarrow> string list" where
  "dependencies p n =
     (case map_of (Processes p) n of Some proc \<Rightarrow> GetDependencies proc | None \<Rightarrow> [])"

definition dependsOn :: "Project \<Rightarrow> (string \<times> string) set" where
  "dependsOn p = {(n, d). enabled p n \<and> d \<in> set (dependencies p n) \<and> enabled p d}"

definition roots :: "Project \<Rightarrow> string list \<Rightarrow> string set" where
  "roots p names = (if names = [] then {n. enabled p n} else {n \<in> set names. enabled p n})"

definition reachable :: "Project \<Rightarrow> string list \<Rightarrow> string set" where
  "reachable p names = (dependsOn p)\<^sup>* `` roots p names"

definition resolved :: "Project \<Rightarrow> ProcessConfig \<Rightarrow> bool" where
  "resolved p process =
     (\<exists>proc. map_of (Processes p) (Name process) = Some proc \<and> \<not> Disabled proc
        \<and> process = proc\<lparr>Name := Name process\<rparr>)"

text \<open>
  \<open>depsBefore p seen t\<close>: every process of \<open>t\<close> comes after each of its enabled
  dependencies, \<open>seen\<close> being the names that came before \<open>t\<close>.
\<close>

fun depsBefore :: "Project \<Rightarrow> string set \<Rightarrow> ProcessConfig list \<Rightarrow> bool" where
  "depsBefore p seen [] = True"
| "depsBefore p seen (q # t) =
     ((\<forall>d \<in> set (GetDependencies q). enabled p d \<longrightarrow> d \<in> seen)
      \<and> depsBefore p (insert (Name q) seen) t)"

text \<open>
  A visitor that never returns an error, as the two closures of \<^verbatim>\<open>project.go\<close>, and the
  state it leaves after it has been called on the processes \<open>t\<close>, in this order.
\<close>

definition neverFails :: "'s ProcessFunc \<Rightarrow> bool" where
  "neverFails fn = (\<forall>process s. fst (fn process s) = None)"

definition visitAll :: "'s ProcessFunc \<Rightarrow> 's \<Rightarrow> ProcessConfig list \<Rightarrow> 's" where
  "visitAll fn s t = foldl (\<lambda>s process. snd (fn process s)) s t"

text \<open>
  Two enumerations of the same project.  The entries of a project are what its Go maps
  hold, whatever the order in which they are enumerated: for each name, whether the process
  is disabled and the entries of its \<^verbatim>\<open>DependsOn\<close>.
\<close>

definition entries :: "Project \<Rightarrow> (string \<times> bool \<times> (string \<times> ProcessDependency) set) set" where
  "entries p = (\<lambda>(n, c). (n, Disabled c, set (DependsOn c))) ` set (Processes p)"

definition sameProject :: "Project \<Rightarrow> Project \<Rightarrow> bool" where
  "sameProject p p' =
     (distinct (map fst (Processes p)) \<and> distinct (map fst (Processes p'))
      \<and> entries p = entries p')"

section \<open>Concrete inputs\<close>

text \<open>
  A configuration as the loader leaves it in \<^verbatim>\<open>p.Processes\<close> (the name is filled in by
  \<^verbatim>\<open>getProcesses\<close> and \<^verbatim>\<open>StartProcess\<close>); a project as \<^verbatim>\<open>CreateProject\<close>
  leaves it, its registry \<^verbatim>\<open>nil\<close>; and the same project once \<^verbatim>\<open>Run\<close> has made the
  registry, holding the given handles.
\<close>

definition config :: "bool \<Rightarrow> (string \<times> ProcessCondition) list \<Rightarrow> ProcessConfig" where
  "config disabled deps =
     \<lparr>Name = [], Disabled = disabled, DependsOn = map (\<lambda>(k, c). (k, \<lparr>Condition = c\<rparr>)) deps\<rparr>"

definition project :: "(string \<times> ProcessConfig) list \<Rightarrow> Project" where
  "project ps =
     \<lparr>Processes = ps, Environment = [], processStates = Map.empty,
      runningProcesses = None, tasks = []\<rparr>"

definition running :: "(string \<times> ProcessConfig) list \<Rightarrow> Process list \<Rightarrow> Project" where
  "running ps hs =
     (project ps)\<lparr>runningProcesses := Some (map_of (map (\<lambda>h. (GetName h, h)) hs))\<rparr>"

definition handle :: "string \<Rightarrow> bool \<Rightarrow> (string \<times> ProcessCondition) list \<Rightarrow> Process" where
  "handle name disabled deps = NewProcess [] ((config disabled deps)\<lparr>Name := name\<rparr>) None 1"

definition never_returns :: "Process \<Rightarrow> string \<Rightarrow> int outcome" where
  "never_returns h w = Blocks"

definition returns_code :: "int \<Rightarrow> Process \<Rightarrow> string \<Rightarrow> int outcome" where
  "returns_code c h w = Returns c"

definition self_dependent :: Project where
  "self_dependent = project [(''a'', config False [(''a'', ProcessConditionCompleted)])]"

definition self_state :: ProcessState where
  "self_state = \<lparr>StateName = ''a'', Status = ProcessStatePending, Restarts = 0, ExitCode = 0\<rparr>"

definition self_handle :: Process where
  "self_handle =
     NewProcess [] ((config False [(''a'', ProcessConditionCompleted)])\<lparr>Name := ''a''\<rparr>)
       (Some self_state) 1"

definition self_running :: Project where
  "self_running =
     \<lparr>Processes = [(''a'', config False [(''a'', ProcessConditionCompleted)])],
      Environment = [], processStates = [''a'' \<mapsto> self_state],
      runningProcesses = Some [''a'' \<mapsto> self_handle], tasks = [self_handle]\<rparr>"

definition cyclic_project :: Project where
  "cyclic_project =
     project [(''a'', config False [(''b'', ProcessConditionCompleted)]),
              (''b'', config False [(''a'', ProcessConditionCompleted)])]"

definition chain_project :: Project where
  "chain_project =
     project [(''c'', config False [(''b'', ProcessConditionCompletedSuccessfully)]),
              (''b'', config False [(''a'', ProcessConditionCompletedSuccessfully),
                                    (''d'', ProcessConditionCompleted)]),
              (''a'', config False []),
              (''d'', config True [(''zz'', ProcessConditionCompleted)])]"

definition dangling_project :: Project where
  "dangling_project =
     project [(''a'', config False []),
              (''c'', config False [(''zz'', ProcessConditionCompleted)])]"

definition chain_rank :: "string \<Rightarrow> nat" where
  "chain_rank n = (if n = ''c'' then 2 else if n = ''b'' then 1 else 0)"

definition disabled_dep_project :: Project where
  "disabled_dep_project =
     project [(''a'', config False [(''b'', ProcessConditionCompleted)]), (''b'', config True [])]"

definition ab_project :: Project where
  "ab_project = project [(''a'', config False []), (''b'', config False [])]"

definition ba_project :: Project where
  "ba_project = project [(''b'', config False []), (''a'', config False [])]"

definition demo_exists :: "string \<Rightarrow> bool" where
  "demo_exists f = (f = ''/w/compose.yml'' \<or> f = ''/w/process-compose.yaml'')"

definition demo_join :: "string \<Rightarrow> string \<Rightarrow> string" where
  "demo_join dir n = dir @ ''/'' @ n"

section \<open>Invariants of the walk\<close>

lemma withProcesses_loop_Cons:
  "withProcesses_loop p (process # rest) fn done s =
     (if Name process \<in> done then withProcesses_loop p rest fn done s
      else
        (case depProcesses p process of
           (procs, Some e) \<Rightarrow> (Some e, insert (Name process) done, s)
         | (procs, None) \<Rightarrow>
             (case withProcesses_loop p procs fn (insert (Name process) done) s of
                (Some e, done2, s2) \<Rightarrow> (Some e, done2, s2)
              | (None, done2, s2) \<Rightarrow>
                  (case fn process s2 of
                     (Some e, s3) \<Rightarrow> (Some e, done2, s3)
                   | (None, s3) \<Rightarrow> withProcesses_loop p rest fn done2 s3))))"
  by (simp add: withProcesses_loop.simps(2) depProcesses_def Let_def
      split: prod.splits option.splits)

lemmas walk_eval = WithProcesses_def withProcesses_def getProcesses_def appendName_def
  appendProcess_def withProcesses_loop_Cons depProcesses_def GetDependencies_def
  project_def config_def GetDependenciesOrderNames_def

lemma withProcesses_loop_induct [case_names Nil Cons]:
  assumes nil: "\<And>done s. P [] done s"
    and step: "\<And>process rest done s.
      (Name process \<in> done \<Longrightarrow> P rest done s) \<Longrightarrow>
      (\<And>procs. Name process \<notin> done \<Longrightarrow> depProcesses p process = (procs, None) \<Longrightarrow>
         P procs (insert (Name process) done) s) \<Longrightarrow>
      (\<And>procs done2 s2 s3. Name process \<notin> done \<Longrightarrow>
         depProcesses p process = (procs, None) \<Longrightarrow>
         withProcesses_loop p procs fn (insert (Name process) done) s = (None, done2, s2) \<Longrightarrow>
         fn process s2 = (None, s3) \<Longrightarrow> P rest done2 s3) \<Longrightarrow>
      P (process # rest) done s"
  shows "P procs done s"
proof -
  have "p' = p \<Longrightarrow> fn' = fn \<Longrightarrow> P procs done s" for p' fn'
  proof (induction p' procs fn' "done" s rule: withProcesses_loop.induct)
    case (1 p' fn' "done" s)
    show ?case by (rule nil)
  next
    case (2 p' process rest fn' "done" s)
    note eq = "2.prems"
    show ?case
    proof (rule step)
      assume "Name process \<in> done"
      then show "P rest done s" using eq by (rule "2.IH"(1))
    next
      fix procs
      assume a: "Name process \<notin> done" "depProcesses p process = (procs, None)"
      show "P procs (insert (Name process) done) s"
      proof (cases "GetDependencies process = []")
        case True
        with a have "procs = []" by (simp add: depProcesses_def)
        then show ?thesis by (simp add: nil)
      next
        case False
        with a eq have "(procs, None) = getProcesses p' (GetDependencies process)"
          by (simp add: depProcesses_def)
        from "2.IH"(2) [OF a(1) refl refl False this refl eq] show ?thesis .
      qed
    next
      fix procs done2 s2 s3
      assume a: "Name process \<notin> done" "depProcesses p process = (procs, None)"
        "withProcesses_loop p procs fn (insert (Name process) done) s = (None, done2, s2)"
        "fn process s2 = (None, s3)"
      have "(if GetDependencies process \<noteq> [] then
               (case getProcesses p' (GetDependencies process) of
                  (processes, Some e) \<Rightarrow> (Some e, insert (Name process) done, s)
                | (processes, None) \<Rightarrow>
                    withProcesses_loop p' processes fn' (insert (Name process) done) s)
             else (None, insert (Name process) done, s)) = (None, done2, s2)"
        using a(2,3) eq by (auto simp: depProcesses_def split: if_splits)
      from "2.IH"(3) [OF a(1) refl refl this [symmetric] refl refl refl _ refl eq] a(4) eq
      show "P rest done2 s3" by simp
    qed
  qed
  then show ?thesis by simp
qed

lemma withProcesses_loop_walks:
  fixes g :: "ProcessConfig \<Rightarrow> 'a"
  defines "fn \<equiv> \<lambda>process s. (None :: error option, s @ [g process])"
  shows "withProcesses_loop p procs fn done s = (err, done', s') \<Longrightarrow>
    \<exists>t. walks p procs done (err, done', t) \<and> s' = s @ map g t"
proof (induction procs "done" s arbitrary: err done' s' rule: withProcesses_loop_induct [where p = p and fn = fn])
  case (Nil "done" s)
  then show ?case by (auto intro: walks_Nil)
next
  case (Cons process rest "done" s)
  show ?case
  proof (cases "Name process \<in> done")
    case True
    with Cons.prems have "withProcesses_loop p rest fn done s = (err, done', s')"
      by (simp add: withProcesses_loop_Cons)
    from Cons.IH(1) [OF True this] True show ?thesis
      by (auto intro: walks_Skip)
  next
    case False
    obtain procs e where d: "depProcesses p process = (procs, e)"
      by (cases "depProcesses p process") auto
    show ?thesis
    proof (cases e)
      case (Some x)
      with d False Cons.prems show ?thesis
        by (auto simp: withProcesses_loop_Cons intro: walks_Missing)
    next
      case None
      obtain e1 done2 s2 where r1:
        "withProcesses_loop p procs fn (insert (Name process) done) s = (e1, done2, s2)"
        by (cases "withProcesses_loop p procs fn (insert (Name process) done) s") auto
      from Cons.IH(2) [OF False d [unfolded None] r1]
      obtain t1 where t1: "walks p procs (insert (Name process) done) (e1, done2, t1)"
        "s2 = s @ map g t1" by blast
      show ?thesis
      proof (cases e1)
        case (Some x)
        with d None False r1 Cons.prems t1 show ?thesis
          by (auto simp: withProcesses_loop_Cons intro: walks_DepsErr)
      next
        case None1: None
        have f: "fn process s2 = (None, s2 @ [g process])"
          by (simp add: fn_def)
        from Cons.prems d None False r1 None1 f
        have r2: "withProcesses_loop p rest fn done2 (s2 @ [g process]) = (err, done', s')"
          by (simp add: withProcesses_loop_Cons)
        from Cons.IH(3) [OF False d [unfolded None] r1 [unfolded None1] f r2]
        obtain t2 where t2: "walks p rest done2 (err, done', t2)"
          "s' = (s2 @ [g process]) @ map g t2" by blast
        from walks_Visit [OF False d [unfolded None] t1(1) [unfolded None1] t2(1)] t1(2) t2(2)
        show ?thesis by auto
      qed
    qed
  qed
qed


lemma resolved_enabled: "resolved p q \<Longrightarrow> enabled p (Name q)"
  by (auto simp: resolved_def enabled_def)

lemma resolved_dependencies: "resolved p q \<Longrightarrow> dependencies p (Name q) = GetDependencies q"
proof -
  assume "resolved p q"
  then obtain proc where a: "map_of (Processes p) (Name q) = Some proc"
    and b: "q = proc\<lparr>Name := Name q\<rparr>"
    by (auto simp: resolved_def)
  from b have "GetDependencies q = GetDependencies proc"
    by (metis GetDependencies_def ProcessConfig.select_convs(3) ProcessConfig.surjective
        ProcessConfig.update_convs(1))
  with a show ?thesis by (simp add: dependencies_def)
qed

lemma getProcesses_named_ok:
  "getProcesses_named p names acc = (procs, None) \<Longrightarrow>
   (\<exists>new. procs = acc @ new \<and> (\<forall>q \<in> set new. resolved p q)
      \<and> map Name new = filter (enabled p) names)
   \<and> (\<forall>n \<in> set names. declared p n)"
proof (induction names arbitrary: acc)
  case Nil
  then show ?case by simp
next
  case (Cons name names)
  show ?case
  proof (cases "map_of (Processes p) name")
    case None
    with Cons.prems show ?thesis by simp
  next
    case (Some proc)
    show ?thesis
    proof (cases "Disabled proc")
      case True
      with Some Cons.prems Cons.IH [of acc] show ?thesis
        by (simp add: enabled_def declared_def)
    next
      case False
      from False Some have r: "resolved p (proc\<lparr>Name := name\<rparr>)"
        by (simp add: resolved_def)
      from False Some Cons.prems
      have "getProcesses_named p names (acc @ [proc\<lparr>Name := name\<rparr>]) = (procs, None)"
        by simp
      from Cons.IH [OF this] obtain new where
        n: "procs = (acc @ [proc\<lparr>Name := name\<rparr>]) @ new" "\<forall>q \<in> set new. resolved p q"
          "map Name new = filter (enabled p) names" and d: "\<forall>n \<in> set names. declared p n"
        by blast
      have "procs = acc @ (proc\<lparr>Name := name\<rparr> # new)
          \<and> (\<forall>q \<in> set (proc\<lparr>Name := name\<rparr> # new). resolved p q)
          \<and> map Name (proc\<lparr>Name := name\<rparr> # new) = filter (enabled p) (name # names)"
        using n r False Some by (simp add: enabled_def)
      moreover have "\<forall>n \<in> set (name # names). declared p n"
        using d Some by (simp add: declared_def)
      ultimately show ?thesis by blast
    qed
  qed
qed

lemma getProcesses_named_error:
  "getProcesses_named p names acc = (procs, Some e) \<Longrightarrow>
   \<exists>n \<in> set names. e = NoSuchProcess n \<and> \<not> declared p n"
proof (induction names arbitrary: acc)
  case Nil
  then show ?case by simp
next
  case (Cons name names)
  show ?case
  proof (cases "map_of (Processes p) name")
    case None
    with Cons.prems show ?thesis by (auto simp: declared_def)
  next
    case (Some proc)
    with Cons.prems Cons.IH show ?thesis
      by (cases "Disabled proc") auto
  qed
qed

lemma getProcesses_all:
  assumes "distinct (map fst (Processes p))"
  shows "\<exists>procs. getProcesses p [] = (procs, None) \<and> (\<forall>q \<in> set procs. resolved p q)
    \<and> Name ` set procs = {n. enabled p n}"
proof -
  define procs where
    "procs = [proc\<lparr>Name := name\<rparr>. (name, proc) \<leftarrow> Processes p, \<not> Disabled proc]"
  have mem: "(q \<in> set procs) =
      (\<exists>name proc. (name, proc) \<in> set (Processes p) \<and> \<not> Disabled proc \<and> q = proc\<lparr>Name := name\<rparr>)"
    for q
    unfolding procs_def by auto
  have m: "map_of (Processes p) n = Some proc" if "(n, proc) \<in> set (Processes p)" for n proc
    using assms that by (rule map_of_is_SomeI)
  have r: "\<forall>q \<in> set procs. resolved p q"
  proof
    fix q assume "q \<in> set procs"
    then obtain name proc where q: "(name, proc) \<in> set (Processes p)" "\<not> Disabled proc"
        "q = proc\<lparr>Name := name\<rparr>"
      unfolding mem by blast
    from q(3) have n: "Name q = name" by simp
    have "map_of (Processes p) (Name q) = Some proc \<and> \<not> Disabled proc
        \<and> q = proc\<lparr>Name := Name q\<rparr>"
      unfolding n using m [OF q(1)] q(2,3) by simp
    then show "resolved p q"
      unfolding resolved_def by (rule exI)
  qed
  have e: "Name ` set procs = {n. enabled p n}"
  proof (intro set_eqI iffI)
    fix n assume "n \<in> Name ` set procs"
    then obtain q where "q \<in> set procs" "n = Name q" by blast
    with r show "n \<in> {n. enabled p n}"
      using resolved_enabled by blast
  next
    fix n assume "n \<in> {n. enabled p n}"
    then obtain proc where a: "map_of (Processes p) n = Some proc" "\<not> Disabled proc"
      by (auto simp: enabled_def split: option.splits)
    from a(1) have "(n, proc) \<in> set (Processes p)" by (rule map_of_SomeD)
    with a(2) have "proc\<lparr>Name := n\<rparr> \<in> set procs"
      unfolding mem by blast
    moreover have "Name (proc\<lparr>Name := n\<rparr>) = n" by simp
    ultimately show "n \<in> Name ` set procs"
      by (metis image_eqI)
  qed
  have "getProcesses p [] = (procs, None)"
    unfolding getProcesses_def procs_def by simp
  with r e show ?thesis by blast
qed

lemma depProcesses_ok:
  assumes "depProcesses p process = (procs, None)"
  shows "(\<forall>q \<in> set procs. resolved p q)
    \<and> Name ` set procs = {d \<in> set (GetDependencies process). enabled p d}
    \<and> (\<forall>d \<in> set (GetDependencies process). declared p d)"
proof (cases "GetDependencies process = []")
  case True
  with assms show ?thesis by (simp add: depProcesses_def)
next
  case False
  with assms have "getProcesses_named p (GetDependencies process) [] = (procs, None)"
    by (simp add: depProcesses_def getProcesses_def)
  from getProcesses_named_ok [OF this] obtain new where
    n: "procs = new" "\<forall>q \<in> set new. resolved p q"
      "map Name new = filter (enabled p) (GetDependencies process)"
    and d: "\<forall>n \<in> set (GetDependencies process). declared p n"
    by auto
  from n(3) have "set (map Name new) = set (filter (enabled p) (GetDependencies process))"
    by simp
  then have "Name ` set new = {d \<in> set (GetDependencies process). enabled p d}"
    by auto
  with n d show ?thesis by simp
qed

lemma depProcesses_error:
  assumes "depProcesses p process = (procs, Some e)"
  shows "\<exists>d \<in> set (GetDependencies process). e = NoSuchProcess d \<and> \<not> declared p d"
proof (cases "GetDependencies process = []")
  case True
  with assms show ?thesis by (simp add: depProcesses_def)
next
  case False
  with assms have "getProcesses_named p (GetDependencies process) [] = (procs, Some e)"
    by (simp add: depProcesses_def getProcesses_def)
  from getProcesses_named_error [OF this] show ?thesis .
qed

lemma walks_mono:
  "walks p procs done r \<Longrightarrow> done \<subseteq> fst (snd r)"
  by (induction rule: walks.induct) auto

lemma walks_trace_names:
  "walks p procs done r \<Longrightarrow>
   Name ` set (snd (snd r)) \<subseteq> fst (snd r) \<and> Name ` set (snd (snd r)) \<inter> done = {}
     \<and> distinct (map Name (snd (snd r)))"
proof (induction rule: walks.induct)
  case (walks_Nil p "done")
  show ?case by simp
next
  case (walks_Skip process "done" p rest r)
  then show ?case by simp
next
  case (walks_Missing process "done" p procs e rest)
  show ?case by simp
next
  case (walks_DepsErr process "done" p procs e done2 t1 rest)
  then show ?case by auto
next
  case (walks_Visit process "done" p procs done2 t1 rest err done3 t2)
  from walks_mono [OF walks_Visit(3)] have m1: "insert (Name process) done \<subseteq> done2" by simp
  from walks_mono [OF walks_Visit(4)] have m2: "done2 \<subseteq> done3" by simp
  from walks_Visit.IH(1) have a: "Name ` set t1 \<subseteq> done2"
    "Name ` set t1 \<inter> insert (Name process) done = {}" "distinct (map Name t1)" by simp_all
  from walks_Visit.IH(2) have b: "Name ` set t2 \<subseteq> done3"
    "Name ` set t2 \<inter> done2 = {}" "distinct (map Name t2)" by simp_all
  have 1: "Name ` set (t1 @ process # t2) \<subseteq> done3"
    using a b m1 m2 by auto
  have 2: "Name ` set (t1 @ process # t2) \<inter> done = {}"
    using a b m1 walks_Visit(1) by auto
  have 3: "distinct (map Name (t1 @ process # t2))"
    using a b m1 by auto
  from 1 2 3 show ?case by simp
qed

lemma walks_done:
  "walks p procs done r \<Longrightarrow> fst r = None \<Longrightarrow>
   fst (snd r) = done \<union> Name ` set (snd (snd r)) \<and> Name ` set procs \<subseteq> fst (snd r)"
proof (induction rule: walks.induct)
  case (walks_Nil p "done")
  show ?case by simp
next
  case (walks_Skip process "done" p rest r)
  from walks_mono [OF walks_Skip(2)] walks_Skip show ?case by auto
next
  case (walks_Missing process "done" p procs e rest)
  then show ?case by simp
next
  case (walks_DepsErr process "done" p procs e done2 t1 rest)
  then show ?case by simp
next
  case (walks_Visit process "done" p procs done2 t1 rest err done3 t2)
  have a: "done2 = insert (Name process) done \<union> Name ` set t1"
    using walks_Visit.IH(1) by simp
  from walks_Visit.prems have "fst (err, done3, t2) = None" by simp
  note ih2 = walks_Visit.IH(2) [OF this, simplified]
  from ih2 have b: "done3 = done2 \<union> Name ` set t2" by blast
  from ih2 have c: "Name ` set rest \<subseteq> done3" by blast
  have "done3 = done \<union> Name ` set (t1 @ process # t2)"
    unfolding b a by auto
  moreover have "Name ` set (process # rest) \<subseteq> done3"
    using c unfolding b a by auto
  ultimately show ?case by simp
qed


lemma walks_done_both:
  assumes "walks p procs done (None, done', t)"
  shows "done' = done \<union> Name ` set t \<and> Name ` set procs \<subseteq> done'"
  using walks_done [OF assms fst_conv, unfolded fst_conv snd_conv] .

lemma walks_done_procs:
  "walks p procs done (None, done', t) \<Longrightarrow> Name ` set procs \<subseteq> done'"
  by (rule walks_done_both [THEN conjunct2])

lemma walks_done_eq:
  "walks p procs done (None, done', t) \<Longrightarrow> done' = done \<union> Name ` set t"
  by (rule walks_done_both [THEN conjunct1])

lemma depProcesses_edge:
  assumes "resolved p process" "depProcesses p process = (procs, None)" "q \<in> set procs"
  shows "(Name process, Name q) \<in> dependsOn p"
proof -
  from depProcesses_ok [OF assms(2)] assms(3)
  have "Name q \<in> set (GetDependencies process)" "enabled p (Name q)" by auto
  with resolved_enabled [OF assms(1)] resolved_dependencies [OF assms(1)]
  show ?thesis by (simp add: dependsOn_def)
qed

lemma walks_closed:
  "walks p procs done r \<Longrightarrow> \<forall>q \<in> set procs. resolved p q \<Longrightarrow>
   \<forall>q \<in> set (snd (snd r)). resolved p q
     \<and> (\<forall>d \<in> set (GetDependencies q). declared p d \<and> (enabled p d \<longrightarrow> d \<in> fst (snd r)))"
proof (induction rule: walks.induct)
  case (walks_Nil p "done")
  show ?case by simp
next
  case (walks_Skip process "done" p rest r)
  then show ?case by simp
next
  case (walks_Missing process "done" p procs e rest)
  show ?case by simp
next
  case (walks_DepsErr process "done" p procs e done2 t1 rest)
  from depProcesses_ok [OF walks_DepsErr(2)] have "\<forall>q \<in> set procs. resolved p q" by simp
  from walks_DepsErr.IH [OF this] show ?case .
next
  case (walks_Visit process "done" p procs done2 t1 rest err done3 t2)
  note ok = depProcesses_ok [OF walks_Visit(2)]
  from ok have rp: "\<forall>q \<in> set procs. resolved p q" by simp
  from walks_Visit.prems have r0: "resolved p process" and rr: "\<forall>q \<in> set rest. resolved p q"
    by simp_all
  from walks_mono [OF walks_Visit(4)] have m2: "done2 \<subseteq> done3" by simp
  note n1 = walks_done_procs [OF walks_Visit(3)]
  have a: "\<forall>q \<in> set t1. resolved p q
     \<and> (\<forall>d \<in> set (GetDependencies q). declared p d \<and> (enabled p d \<longrightarrow> d \<in> done3))"
    using walks_Visit.IH(1) [OF rp] m2 by auto
  have b: "\<forall>q \<in> set t2. resolved p q
     \<and> (\<forall>d \<in> set (GetDependencies q). declared p d \<and> (enabled p d \<longrightarrow> d \<in> done3))"
    using walks_Visit.IH(2) [OF rr] by simp
  have c: "\<forall>d \<in> set (GetDependencies process). declared p d \<and> (enabled p d \<longrightarrow> d \<in> done3)"
  proof
    fix d assume d: "d \<in> set (GetDependencies process)"
    with ok have 1: "declared p d" by simp
    have "d \<in> done3" if "enabled p d"
    proof -
      from that d ok have "d \<in> Name ` set procs" by simp
      with n1 m2 show ?thesis by blast
    qed
    with 1 show "declared p d \<and> (enabled p d \<longrightarrow> d \<in> done3)" by simp
  qed
  from a b c r0 show ?case by auto
qed

lemma reach_step:
  assumes "resolved p process" "depProcesses p process = (procs, None)"
  shows "(dependsOn p)\<^sup>* `` Name ` set procs \<subseteq> (dependsOn p)\<^sup>* `` {Name process}"
proof
  fix x assume "x \<in> (dependsOn p)\<^sup>* `` Name ` set procs"
  then obtain q where q: "q \<in> set procs" "(Name q, x) \<in> (dependsOn p)\<^sup>*" by auto
  from depProcesses_edge [OF assms q(1)] q(2)
  have "(Name process, x) \<in> (dependsOn p)\<^sup>*" by (rule converse_rtrancl_into_rtrancl)
  then show "x \<in> (dependsOn p)\<^sup>* `` {Name process}" by simp
qed

lemma walks_reach:
  "walks p procs done r \<Longrightarrow> \<forall>q \<in> set procs. resolved p q \<Longrightarrow>
   Name ` set (snd (snd r)) \<subseteq> (dependsOn p)\<^sup>* `` Name ` set procs"
proof (induction rule: walks.induct)
  case (walks_Nil p "done")
  show ?case by simp
next
  case (walks_Skip process "done" p rest r)
  then have "Name ` set (snd (snd r)) \<subseteq> (dependsOn p)\<^sup>* `` Name ` set rest" by simp
  then show ?case by auto
next
  case (walks_Missing process "done" p procs e rest)
  show ?case by simp
next
  case (walks_DepsErr process "done" p procs e done2 t1 rest)
  from depProcesses_ok [OF walks_DepsErr(2)] have "\<forall>q \<in> set procs. resolved p q" by simp
  from walks_DepsErr.IH [OF this]
  have "Name ` set t1 \<subseteq> (dependsOn p)\<^sup>* `` Name ` set procs" by simp
  moreover from walks_DepsErr.prems have "resolved p process" by simp
  note reach_step [OF this walks_DepsErr(2)]
  ultimately have "Name ` set t1 \<subseteq> (dependsOn p)\<^sup>* `` {Name process}" by blast
  then show ?case by auto
next
  case (walks_Visit process "done" p procs done2 t1 rest err done3 t2)
  from depProcesses_ok [OF walks_Visit(2)] have "\<forall>q \<in> set procs. resolved p q" by simp
  from walks_Visit.IH(1) [OF this]
  have "Name ` set t1 \<subseteq> (dependsOn p)\<^sup>* `` Name ` set procs" by simp
  moreover from walks_Visit.prems have "resolved p process" by simp
  note reach_step [OF this walks_Visit(2)]
  ultimately have a: "Name ` set t1 \<subseteq> (dependsOn p)\<^sup>* `` {Name process}" by blast
  from walks_Visit.prems have "\<forall>q \<in> set rest. resolved p q" by simp
  from walks_Visit.IH(2) [OF this]
  have b: "Name ` set t2 \<subseteq> (dependsOn p)\<^sup>* `` Name ` set rest" by simp
  have "(dependsOn p)\<^sup>* `` {Name process}
      \<subseteq> (dependsOn p)\<^sup>* `` Name ` set (process # rest)"
    by (rule Image_mono) auto
  moreover have "(dependsOn p)\<^sup>* `` Name ` set rest
      \<subseteq> (dependsOn p)\<^sup>* `` Name ` set (process # rest)"
    by (rule Image_mono) auto
  moreover have "Name process \<in> (dependsOn p)\<^sup>* `` Name ` set (process # rest)"
    by auto
  ultimately have "Name ` set (t1 @ process # t2)
      \<subseteq> (dependsOn p)\<^sup>* `` Name ` set (process # rest)"
    using a b by (simp only: set_append set_simps image_Un image_insert) blast
  then show ?case by simp
qed

lemma walks_error:
  "walks p procs done r \<Longrightarrow> \<forall>q \<in> set procs. resolved p q \<Longrightarrow> fst r = Some e \<Longrightarrow>
   \<exists>q d. resolved p q \<and> Name q \<in> (dependsOn p)\<^sup>* `` Name ` set procs
     \<and> d \<in> set (GetDependencies q) \<and> \<not> declared p d \<and> e = NoSuchProcess d"
proof (induction rule: walks.induct)
  case (walks_Nil p "done")
  then show ?case by simp
next
  case (walks_Skip process "done" p rest r)
  then obtain q d where "resolved p q" "Name q \<in> (dependsOn p)\<^sup>* `` Name ` set rest"
    "d \<in> set (GetDependencies q)" "\<not> declared p d" "e = NoSuchProcess d"
    by auto
  moreover then have "Name q \<in> (dependsOn p)\<^sup>* `` Name ` set (process # rest)" by auto
  ultimately show ?case by blast
next
  case (walks_Missing process "done" p procs e' rest)
  then have e: "e' = e" by simp
  from depProcesses_error [OF walks_Missing(2)] e obtain d where
    "d \<in> set (GetDependencies process)" "\<not> declared p d" "e = NoSuchProcess d" by auto
  moreover from walks_Missing.prems have "resolved p process" by simp
  moreover have "Name process \<in> (dependsOn p)\<^sup>* `` Name ` set (process # rest)" by auto
  ultimately show ?case by blast
next
  case (walks_DepsErr process "done" p procs e' done2 t1 rest)
  from depProcesses_ok [OF walks_DepsErr(2)] have "\<forall>q \<in> set procs. resolved p q" by simp
  from walks_DepsErr.IH [OF this] walks_DepsErr.prems(2)
  obtain q d where q: "resolved p q" "Name q \<in> (dependsOn p)\<^sup>* `` Name ` set procs"
    "d \<in> set (GetDependencies q)" "\<not> declared p d" "e = NoSuchProcess d"
    by auto
  from walks_DepsErr.prems have "resolved p process" by simp
  from reach_step [OF this walks_DepsErr(2)] q(2)
  have "Name q \<in> (dependsOn p)\<^sup>* `` {Name process}" by blast
  then have "Name q \<in> (dependsOn p)\<^sup>* `` Name ` set (process # rest)" by auto
  with q show ?case by blast
next
  case (walks_Visit process "done" p procs done2 t1 rest err done3 t2)
  from walks_Visit.prems have "\<forall>q \<in> set rest. resolved p q" "fst (err, done3, t2) = Some e"
    by simp_all
  from walks_Visit.IH(2) [OF this]
  obtain q d where q: "resolved p q" "Name q \<in> (dependsOn p)\<^sup>* `` Name ` set rest"
    "d \<in> set (GetDependencies q)" "\<not> declared p d" "e = NoSuchProcess d"
    by auto
  then have "Name q \<in> (dependsOn p)\<^sup>* `` Name ` set (process # rest)" by auto
  with q show ?case by blast
qed


lemma depsBefore_append:
  "depsBefore p seen (t1 @ t2) =
   (depsBefore p seen t1 \<and> depsBefore p (seen \<union> Name ` set t1) t2)"
  by (induction t1 arbitrary: seen) (auto simp: insert_commute Un_commute)

lemma depsBefore_nth:
  "depsBefore p seen t \<Longrightarrow> i < length t \<Longrightarrow> d \<in> set (GetDependencies (t ! i)) \<Longrightarrow>
   enabled p d \<Longrightarrow> d \<in> seen \<or> (\<exists>j<i. Name (t ! j) = d)"
proof (induction t arbitrary: seen i)
  case Nil
  then show ?case by simp
next
  case (Cons q t)
  show ?case
  proof (cases i)
    case 0
    with Cons.prems show ?thesis by auto
  next
    case (Suc k)
    with Cons.prems have "depsBefore p (insert (Name q) seen) t" "k < length t"
      "d \<in> set (GetDependencies (t ! k))" by simp_all
    from Cons.IH [OF this Cons.prems(4)]
    have "d \<in> insert (Name q) seen \<or> (\<exists>j<k. Name (t ! j) = d)" .
    then consider "d = Name q" | "d \<in> seen" | j where "j < k" "Name (t ! j) = d" by blast
    then show ?thesis
    proof cases
      case 1
      then have "0 < i \<and> Name ((q # t) ! 0) = d" using Suc by simp
      then show ?thesis by blast
    next
      case 2
      then show ?thesis by simp
    next
      case 3
      then have "Suc j < i \<and> Name ((q # t) ! Suc j) = d" using Suc by simp
      then show ?thesis by blast
    qed
  qed
qed

lemma walks_order:
  "walks p procs done r \<Longrightarrow> acyclic (dependsOn p) \<Longrightarrow> \<forall>q \<in> set procs. resolved p q \<Longrightarrow>
   seen \<subseteq> done \<Longrightarrow>
   \<forall>g \<in> done - seen. \<forall>q \<in> set procs. (g, Name q) \<in> (dependsOn p)\<^sup>+ \<Longrightarrow>
   depsBefore p seen (snd (snd r))"
proof (induction arbitrary: seen rule: walks.induct)
  case (walks_Nil p "done")
  show ?case by simp
next
  case (walks_Skip process "done" p rest r)
  from walks_Skip.prems show ?case
    by (intro walks_Skip.IH) auto
next
  case (walks_Missing process "done" p procs e rest)
  show ?case by simp
next
  case (walks_DepsErr process "done" p procs e done2 t1 rest)
  let ?n = "Name process"
  from walks_DepsErr.prems have r0: "resolved p process" by simp
  from depProcesses_ok [OF walks_DepsErr(2)] have rp: "\<forall>q \<in> set procs. resolved p q" by simp
  have g: "\<forall>g \<in> insert ?n done - seen. \<forall>q \<in> set procs. (g, Name q) \<in> (dependsOn p)\<^sup>+"
  proof (intro ballI)
    fix g q assume a: "g \<in> insert ?n done - seen" "q \<in> set procs"
    note e = depProcesses_edge [OF r0 walks_DepsErr(2) a(2)]
    show "(g, Name q) \<in> (dependsOn p)\<^sup>+"
    proof (cases "g = ?n")
      case True
      with e show ?thesis by auto
    next
      case False
      with a walks_DepsErr.prems(4) have "(g, ?n) \<in> (dependsOn p)\<^sup>+" by simp
      then show ?thesis using e by (rule trancl_into_trancl)
    qed
  qed
  from walks_DepsErr.prems(3) have "seen \<subseteq> insert ?n done" by auto
  from walks_DepsErr.IH [OF walks_DepsErr.prems(1) rp this g] show ?case by simp
next
  case (walks_Visit process "done" p procs done2 t1 rest err done3 t2)
  let ?n = "Name process"
  note ac = walks_Visit.prems(1)
  from walks_Visit.prems have r0: "resolved p process" and rr: "\<forall>q \<in> set rest. resolved p q"
    by simp_all
  note ok = depProcesses_ok [OF walks_Visit(2)]
  from ok have rp: "\<forall>q \<in> set procs. resolved p q" by simp
  note d2 = walks_done_eq [OF walks_Visit(3)]
  note n1 = walks_done_procs [OF walks_Visit(3)]
  have nn: "?n \<notin> seen" using walks_Visit(1) walks_Visit.prems(3) by auto
  have g: "\<forall>g \<in> insert ?n done - seen. \<forall>q \<in> set procs. (g, Name q) \<in> (dependsOn p)\<^sup>+"
  proof (intro ballI)
    fix g q assume a: "g \<in> insert ?n done - seen" "q \<in> set procs"
    note e = depProcesses_edge [OF r0 walks_Visit(2) a(2)]
    show "(g, Name q) \<in> (dependsOn p)\<^sup>+"
    proof (cases "g = ?n")
      case True
      with e show ?thesis by auto
    next
      case False
      with a walks_Visit.prems(4) have "(g, ?n) \<in> (dependsOn p)\<^sup>+" by simp
      then show ?thesis using e by (rule trancl_into_trancl)
    qed
  qed
  from walks_Visit.prems(3) have "seen \<subseteq> insert ?n done" by auto
  from walks_Visit.IH(1) [OF ac rp this g]
  have 1: "depsBefore p seen t1" by simp
  have 2: "\<forall>d \<in> set (GetDependencies process). enabled p d \<longrightarrow> d \<in> seen \<union> Name ` set t1"
  proof (intro ballI impI)
    fix d assume d: "d \<in> set (GetDependencies process)" "enabled p d"
    with ok have "d \<in> Name ` set procs" by simp
    then obtain q where q: "q \<in> set procs" "d = Name q" by blast
    note e = depProcesses_edge [OF r0 walks_Visit(2) q(1)]
    from q n1 d2 have "d \<in> insert ?n done \<union> Name ` set t1" by blast
    then consider "d = ?n" | "d \<in> done" "d \<notin> seen" | "d \<in> seen" | "d \<in> Name ` set t1"
      by blast
    then show "d \<in> seen \<union> Name ` set t1"
    proof cases
      case 1
      with e q have "(?n, ?n) \<in> (dependsOn p)\<^sup>+" by auto
      with ac show ?thesis by (simp add: acyclic_def)
    next
      case 2
      with walks_Visit.prems(4) have "(d, ?n) \<in> (dependsOn p)\<^sup>+" by simp
      with e q have "(?n, ?n) \<in> (dependsOn p)\<^sup>+" by (metis trancl_into_trancl2)
      with ac show ?thesis by (simp add: acyclic_def)
    next
      case 3
      then show ?thesis by simp
    next
      case 4
      then show ?thesis by simp
    qed
  qed
  let ?seen2 = "insert ?n (seen \<union> Name ` set t1)"
  have s2: "?seen2 \<subseteq> done2"
    using walks_Visit.prems(3) d2 by auto
  have g2: "\<forall>g \<in> done2 - ?seen2. \<forall>q \<in> set rest. (g, Name q) \<in> (dependsOn p)\<^sup>+"
  proof (intro ballI)
    fix g q assume a: "g \<in> done2 - ?seen2" "q \<in> set rest"
    with d2 have "g \<in> done - seen" by auto
    with a(2) walks_Visit.prems(4) show "(g, Name q) \<in> (dependsOn p)\<^sup>+" by simp
  qed
  from walks_Visit.IH(2) [OF ac rr s2 g2]
  have 3: "depsBefore p ?seen2 t2" by simp
  from 1 2 3 have "depsBefore p seen (t1 @ process # t2)"
    by (simp add: depsBefore_append)
  then show ?case by simp
qed

lemma WithProcesses_walks:
  fixes g :: "ProcessConfig \<Rightarrow> 'a"
  assumes "distinct (map fst (Processes p))"
    and "WithProcesses p names (\<lambda>process s. (None, s @ [g process])) [] = (err, out)"
  shows "(\<exists>n \<in> set names. err = Some (NoSuchProcess n) \<and> \<not> declared p n \<and> out = [])
    \<or> (\<exists>procs done' t. (\<forall>q \<in> set procs. resolved p q) \<and> Name ` set procs = roots p names
          \<and> (\<forall>n \<in> set names. declared p n) \<and> walks p procs {} (err, done', t)
          \<and> out = map g t)"
proof -
  let ?fn = "\<lambda>process s. (None :: error option, s @ [g process])"
  obtain procs e where gp: "getProcesses p names = (procs, e)"
    by (cases "getProcesses p names") auto
  show ?thesis
  proof (cases e)
    case (Some x)
    with gp have ne: "names \<noteq> []" by (auto simp: getProcesses_def split: if_splits)
    with gp Some have "getProcesses_named p names [] = (procs, Some x)"
      by (simp add: getProcesses_def)
    from getProcesses_named_error [OF this] obtain n where
      "n \<in> set names" "x = NoSuchProcess n" "\<not> declared p n" by blast
    moreover from assms(2) gp Some have "err = Some x" "out = []"
      by (simp_all add: WithProcesses_def withProcesses_def)
    ultimately show ?thesis by blast
  next
    case None
    have pr: "(\<forall>q \<in> set procs. resolved p q) \<and> Name ` set procs = roots p names
        \<and> (\<forall>n \<in> set names. declared p n)"
    proof (cases "names = []")
      case True
      from getProcesses_all [OF assms(1)] gp True show ?thesis
        by (auto simp: roots_def)
    next
      case False
      with gp None have "getProcesses_named p names [] = (procs, None)"
        by (simp add: getProcesses_def)
      from getProcesses_named_ok [OF this] obtain new where
        n: "procs = new" "\<forall>q \<in> set new. resolved p q" "map Name new = filter (enabled p) names"
        and d: "\<forall>n \<in> set names. declared p n"
        by auto
      from n(3) have "set (map Name new) = set (filter (enabled p) names)" by simp
      then have "Name ` set new = {n \<in> set names. enabled p n}" by auto
      with n d False show ?thesis by (simp add: roots_def)
    qed
    obtain e1 done' s' where l: "withProcesses_loop p procs ?fn {} [] = (e1, done', s')"
      by (cases "withProcesses_loop p procs ?fn {} []") auto
    from withProcesses_loop_walks [OF l] obtain t where
      t: "walks p procs {} (e1, done', t)" "s' = map g t" by auto
    from assms(2) gp None l have "err = e1" "out = s'"
      by (simp_all add: WithProcesses_def withProcesses_def)
    with t pr show ?thesis by blast
  qed
qed

lemma top_distinct:
  assumes "walks p procs {} (err, done', t)"
  shows "distinct (map Name t)"
  using walks_trace_names [OF assms] by simp

lemma top_resolved:
  assumes "\<forall>q \<in> set procs. resolved p q" "walks p procs {} (err, done', t)"
  shows "\<forall>q \<in> set t. resolved p q \<and> (\<forall>d \<in> set (GetDependencies q). declared p d)"
  using walks_closed [OF assms(2) assms(1)] by simp

lemma top_reachable:
  assumes "\<forall>q \<in> set procs. resolved p q" "Name ` set procs = roots p names"
    "walks p procs {} (err, done', t)"
  shows "Name ` set t \<subseteq> reachable p names"
  using walks_reach [OF assms(3) assms(1)] assms(2) by (simp add: reachable_def)

lemma top_all_reachable:
  assumes r: "\<forall>q \<in> set procs. resolved p q" and ro: "Name ` set procs = roots p names"
    and w: "walks p procs {} (None, done', t)"
  shows "Name ` set t = reachable p names"
proof
  show "Name ` set t \<subseteq> reachable p names" by (rule top_reachable [OF r ro w])
next
  from walks_done_eq [OF w] have d: "done' = Name ` set t" by simp
  from walks_done_procs [OF w] d ro have rt: "roots p names \<subseteq> Name ` set t" by simp
  have "dependsOn p `` Name ` set t \<subseteq> Name ` set t"
  proof
    fix b assume "b \<in> dependsOn p `` Name ` set t"
    then obtain q where q: "q \<in> set t" "(Name q, b) \<in> dependsOn p" by auto
    from walks_closed [OF w r] q(1) have rq: "resolved p q"
      and c: "\<forall>d \<in> set (GetDependencies q). enabled p d \<longrightarrow> d \<in> done'"
      by auto
    from q(2) resolved_dependencies [OF rq]
    have "b \<in> set (GetDependencies q)" "enabled p b" by (simp_all add: dependsOn_def)
    with c d show "b \<in> Name ` set t" by blast
  qed
  then have "(dependsOn p)\<^sup>* `` Name ` set t = Name ` set t"
    by (rule Image_closed_trancl)
  moreover have "(dependsOn p)\<^sup>* `` roots p names \<subseteq> (dependsOn p)\<^sup>* `` Name ` set t"
    using rt by (rule Image_mono [OF subset_refl])
  ultimately show "reachable p names \<subseteq> Name ` set t"
    by (simp add: reachable_def)
qed

lemma top_error:
  assumes r: "\<forall>q \<in> set procs. resolved p q" and ro: "Name ` set procs = roots p names"
    and w: "walks p procs {} (Some e, done', t)"
  shows "\<exists>n \<in> reachable p names. \<exists>d \<in> set (dependencies p n). \<not> declared p d \<and> e = NoSuchProcess d"
proof -
  from walks_error [OF w r] obtain q d where q: "resolved p q"
    "Name q \<in> (dependsOn p)\<^sup>* `` Name ` set procs" "d \<in> set (GetDependencies q)"
    "\<not> declared p d" "e = NoSuchProcess d"
    by auto
  from q(2) ro have "Name q \<in> reachable p names" by (simp add: reachable_def)
  moreover from q(3) resolved_dependencies [OF q(1)] have "d \<in> set (dependencies p (Name q))"
    by simp
  ultimately show ?thesis using q(4,5) by blast
qed

lemma top_no_error:
  assumes r: "\<forall>q \<in> set procs. resolved p q" and ro: "Name ` set procs = roots p names"
    and w: "walks p procs {} (None, done', t)"
    and n: "n \<in> reachable p names" "d \<in> set (dependencies p n)"
  shows "declared p d"
proof -
  from n(1) top_all_reachable [OF r ro w] obtain q where q: "q \<in> set t" "n = Name q" by auto
  from top_resolved [OF r w] q(1) have "resolved p q"
    "\<forall>d \<in> set (GetDependencies q). declared p d" by auto
  with n(2) q(2) resolved_dependencies [of p q] show ?thesis by simp
qed

lemma top_order:
  assumes "acyclic (dependsOn p)" "\<forall>q \<in> set procs. resolved p q"
    "walks p procs {} (err, done', t)"
  shows "depsBefore p {} t"
  using walks_order [OF assms(3) assms(1) assms(2), of "{}"] by simp

lemma appendProcess_eq: "appendProcess = (\<lambda>process runOrder. (None, runOrder @ [process]))"
  by (intro ext) (simp add: appendProcess_def)

lemma withProcesses_loop_fold:
  assumes nf: "neverFails fn"
  shows "withProcesses_loop p procs fn done (visitAll fn s s0) =
    (case withProcesses_loop p procs appendProcess done s0 of
       (e, d, out) \<Rightarrow> (e, d, visitAll fn s out))"
proof (induction procs "done" s0
    rule: withProcesses_loop_induct [where p = p and fn = appendProcess])
  case (Nil "done" s0)
  show ?case by simp
next
  case (Cons process rest "done" s0)
  show ?case
  proof (cases "Name process \<in> done")
    case True
    with Cons.IH(1) show ?thesis by (simp add: withProcesses_loop_Cons)
  next
    case False
    obtain procs e where d: "depProcesses p process = (procs, e)"
      by (cases "depProcesses p process") auto
    show ?thesis
    proof (cases e)
      case (Some x)
      with d False show ?thesis by (simp add: withProcesses_loop_Cons)
    next
      case None
      obtain e1 done2 s2 where r1:
        "withProcesses_loop p procs appendProcess (insert (Name process) done) s0
          = (e1, done2, s2)"
        by (cases "withProcesses_loop p procs appendProcess (insert (Name process) done) s0")
          auto
      from Cons.IH(2) [OF False d [unfolded None]] r1
      have g1: "withProcesses_loop p procs fn (insert (Name process) done) (visitAll fn s s0)
          = (e1, done2, visitAll fn s s2)" by simp
      show ?thesis
      proof (cases e1)
        case (Some x)
        with d None False r1 g1 show ?thesis by (simp add: withProcesses_loop_Cons)
      next
        case None1: None
        have f: "appendProcess process s2 = (None, s2 @ [process])"
          by (simp add: appendProcess_def)
        have f': "fn process (visitAll fn s s2) = (None, visitAll fn s (s2 @ [process]))"
          using nf by (simp add: neverFails_def visitAll_def prod_eq_iff)
        from Cons.IH(3) [OF False d [unfolded None] r1 [unfolded None1] f]
        have "withProcesses_loop p rest fn done2 (visitAll fn s (s2 @ [process])) =
          (case withProcesses_loop p rest appendProcess done2 (s2 @ [process]) of
             (e, d, out) \<Rightarrow> (e, d, visitAll fn s out))" .
        with d None False r1 g1 None1 f f' show ?thesis
          by (simp add: withProcesses_loop_Cons)
      qed
    qed
  qed
qed

lemma WithProcesses_fold:
  assumes "neverFails fn" "WithProcesses p names appendProcess [] = (err, out)"
  shows "WithProcesses p names fn s = (err, visitAll fn s out)"
proof -
  obtain procs e where gp: "getProcesses p names = (procs, e)"
    by (cases "getProcesses p names") auto
  show ?thesis
  proof (cases e)
    case (Some x)
    with gp assms(2) show ?thesis
      by (auto simp: WithProcesses_def withProcesses_def visitAll_def)
  next
    case None
    obtain e1 d1 s1 where l: "withProcesses_loop p procs appendProcess {} [] = (e1, d1, s1)"
      by (cases "withProcesses_loop p procs appendProcess {} []") auto
    from withProcesses_loop_fold [OF assms(1), of p procs "{}" s "[]"] l
    have "withProcesses_loop p procs fn {} s = (e1, d1, visitAll fn s s1)"
      by (simp add: visitAll_def)
    with gp None l assms(2) show ?thesis
      by (auto simp: WithProcesses_def withProcesses_def)
  qed
qed

lemma neverFails_appendName: "neverFails appendName"
  by (simp add: neverFails_def appendName_def)

lemma visitAll_appendName: "visitAll appendName s t = s @ map Name t"
  unfolding visitAll_def by (induction t arbitrary: s) (simp_all add: appendName_def)

lemma WithProcesses_appendName:
  assumes "WithProcesses p names appendProcess [] = (err, out)"
  shows "WithProcesses p names appendName [] = (err, map Name out)"
  using WithProcesses_fold [OF neverFails_appendName assms, of "[]"]
  by (simp add: visitAll_appendName)

lemma GetDependenciesOrderNames_appendProcess:
  assumes "WithProcesses p [] appendProcess [] = (err, out)"
  shows "GetDependenciesOrderNames p = (map Name out, err)"
  using WithProcesses_appendName [OF assms] by (simp add: GetDependenciesOrderNames_def)

lemma WithProcesses_appendProcess_walks:
  assumes "distinct (map fst (Processes p))"
    and "WithProcesses p names appendProcess [] = (err, out)"
  shows "(\<exists>n \<in> set names. err = Some (NoSuchProcess n) \<and> \<not> declared p n \<and> out = [])
    \<or> (\<exists>procs done'. (\<forall>q \<in> set procs. resolved p q) \<and> Name ` set procs = roots p names
          \<and> (\<forall>n \<in> set names. declared p n) \<and> walks p procs {} (err, done', out))"
  using WithProcesses_walks [OF assms(1), of names "\<lambda>x. x" err out] assms(2)
  by (simp add: appendProcess_eq)

lemma roots_reachable: "roots p names \<subseteq> reachable p names"
  by (auto simp: reachable_def)

lemma reachable_enabled: "n \<in> reachable p names \<Longrightarrow> enabled p n"
proof -
  assume "n \<in> reachable p names"
  then obtain r where r: "r \<in> roots p names" "(r, n) \<in> (dependsOn p)\<^sup>*"
    by (auto simp: reachable_def)
  from r(2) show ?thesis
  proof (cases rule: rtranclE)
    case base
    with r(1) show ?thesis by (auto simp: roots_def split: if_splits)
  next
    case (step y)
    then show ?thesis by (simp add: dependsOn_def)
  qed
qed

lemma enabled_declared: "enabled p n \<Longrightarrow> declared p n"
  by (auto simp: enabled_def declared_def split: option.splits)


lemma resolved_not_disabled: "resolved p q \<Longrightarrow> \<not> Disabled q"
proof -
  assume "resolved p q"
  then obtain proc where "\<not> Disabled proc" "q = proc\<lparr>Name := Name q\<rparr>"
    by (auto simp: resolved_def)
  then show ?thesis
    by (metis ProcessConfig.select_convs(2) ProcessConfig.surjective
        ProcessConfig.update_convs(1))
qed

lemma enabled_in_keys: "enabled p n \<Longrightarrow> n \<in> fst ` set (Processes p)"
proof -
  assume "enabled p n"
  then obtain proc where "map_of (Processes p) n = Some proc"
    by (auto simp: enabled_def split: option.splits)
  then have "(n, proc) \<in> set (Processes p)" by (rule map_of_SomeD)
  then show ?thesis by force
qed

lemma entries_iff:
  assumes "distinct (map fst (Processes p))"
  shows "((n, b, ds) \<in> entries p) =
    (\<exists>c. map_of (Processes p) n = Some c \<and> Disabled c = b \<and> set (DependsOn c) = ds)"
proof
  assume "(n, b, ds) \<in> entries p"
  then obtain c where c: "(n, c) \<in> set (Processes p)" "Disabled c = b" "set (DependsOn c) = ds"
    by (auto simp: entries_def)
  from assms c(1) have "map_of (Processes p) n = Some c" by (rule map_of_is_SomeI)
  with c show "\<exists>c. map_of (Processes p) n = Some c \<and> Disabled c = b \<and> set (DependsOn c) = ds"
    by blast
next
  assume "\<exists>c. map_of (Processes p) n = Some c \<and> Disabled c = b \<and> set (DependsOn c) = ds"
  then obtain c where c: "map_of (Processes p) n = Some c" "Disabled c = b"
    "set (DependsOn c) = ds" by blast
  from c(1) have "(n, c) \<in> set (Processes p)" by (rule map_of_SomeD)
  with c(2,3) show "(n, b, ds) \<in> entries p"
    by (force simp: entries_def)
qed

lemma enabled_entries:
  assumes "distinct (map fst (Processes p))"
  shows "enabled p n = (\<exists>ds. (n, False, ds) \<in> entries p)"
proof -
  have "enabled p n = (\<exists>c. map_of (Processes p) n = Some c \<and> \<not> Disabled c)"
    by (cases "map_of (Processes p) n") (simp_all add: enabled_def)
  also have "\<dots> = (\<exists>ds c. map_of (Processes p) n = Some c \<and> Disabled c = False
      \<and> set (DependsOn c) = ds)"
    by blast
  finally show ?thesis unfolding entries_iff [OF assms] .
qed

lemma declared_entries:
  assumes "distinct (map fst (Processes p))"
  shows "declared p n = (\<exists>b ds. (n, b, ds) \<in> entries p)"
proof -
  have "declared p n = (\<exists>c. map_of (Processes p) n = Some c)"
    by (cases "map_of (Processes p) n") (simp_all add: declared_def)
  also have "\<dots> = (\<exists>b ds c. map_of (Processes p) n = Some c \<and> Disabled c = b
      \<and> set (DependsOn c) = ds)"
    by blast
  finally show ?thesis unfolding entries_iff [OF assms] .
qed

lemma dependencies_entries:
  assumes "distinct (map fst (Processes p))"
  shows "(d \<in> set (dependencies p n)) = (\<exists>b ds x. (n, b, ds) \<in> entries p \<and> (d, x) \<in> ds)"
proof -
  have "(d \<in> set (dependencies p n)) =
      (\<exists>c. map_of (Processes p) n = Some c \<and> d \<in> fst ` set (DependsOn c))"
    by (cases "map_of (Processes p) n") (simp_all add: dependencies_def GetDependencies_def)
  also have "\<dots> = (\<exists>c x. map_of (Processes p) n = Some c \<and> (d, x) \<in> set (DependsOn c))"
    by force
  also have "\<dots> = (\<exists>b ds x. (\<exists>c. map_of (Processes p) n = Some c \<and> Disabled c = b
      \<and> set (DependsOn c) = ds) \<and> (d, x) \<in> ds)"
    by blast
  finally show ?thesis unfolding entries_iff [OF assms] .
qed

lemma sameProject_enabled:
  assumes "sameProject p p'"
  shows "enabled p n = enabled p' n"
proof -
  from assms have k: "distinct (map fst (Processes p))" and k': "distinct (map fst (Processes p'))"
    and e: "entries p = entries p'"
    unfolding sameProject_def by blast+
  show ?thesis
    unfolding enabled_entries [OF k] enabled_entries [OF k'] e ..
qed

lemma sameProject_declared:
  assumes "sameProject p p'"
  shows "declared p n = declared p' n"
proof -
  from assms have k: "distinct (map fst (Processes p))" and k': "distinct (map fst (Processes p'))"
    and e: "entries p = entries p'"
    unfolding sameProject_def by blast+
  show ?thesis
    unfolding declared_entries [OF k] declared_entries [OF k'] e ..
qed

lemma sameProject_dependencies:
  assumes "sameProject p p'"
  shows "(d \<in> set (dependencies p n)) = (d \<in> set (dependencies p' n))"
proof -
  from assms have k: "distinct (map fst (Processes p))" and k': "distinct (map fst (Processes p'))"
    and e: "entries p = entries p'"
    unfolding sameProject_def by blast+
  show ?thesis
    unfolding dependencies_entries [OF k] dependencies_entries [OF k'] e ..
qed

lemma sameProject_dependsOn:
  assumes "sameProject p p'"
  shows "dependsOn p = dependsOn p'"
  unfolding dependsOn_def sameProject_enabled [OF assms] sameProject_dependencies [OF assms] ..

lemma sameProject_reachable:
  assumes "sameProject p p'"
  shows "reachable p names = reachable p' names"
  unfolding reachable_def roots_def sameProject_dependsOn [OF assms]
    sameProject_enabled [OF assms] ..



lemma getProcesses_named_cong:
  assumes "Processes p' = Processes p"
  shows "getProcesses_named p' names acc = getProcesses_named p names acc"
proof (induction names arbitrary: acc)
  case Nil
  show ?case by simp
next
  case (Cons name names)
  show ?case
    by (simp only: getProcesses_named.simps assms Cons.IH)
qed

lemma getProcesses_cong:
  assumes "Processes p' = Processes p"
  shows "getProcesses p' names = getProcesses p names"
  unfolding getProcesses_def assms getProcesses_named_cong [OF assms] ..

lemma depProcesses_cong:
  assumes "Processes p' = Processes p"
  shows "depProcesses p' process = depProcesses p process"
  unfolding depProcesses_def getProcesses_cong [OF assms] ..

lemma withProcesses_loop_cong:
  assumes "Processes p' = Processes p"
  shows "withProcesses_loop p' procs fn done s = withProcesses_loop p procs fn done s"
proof (induction procs "done" s rule: withProcesses_loop_induct [where p = p and fn = fn])
  case (Nil "done" s)
  show ?case by simp
next
  case (Cons process rest "done" s)
  note dc = depProcesses_cong [OF assms, of process]
  show ?case
  proof (cases "Name process \<in> done")
    case True
    from Cons.IH(1) [OF True] True show ?thesis
      by (simp add: withProcesses_loop_Cons)
  next
    case False
    obtain procs e where d: "depProcesses p process = (procs, e)"
      by (cases "depProcesses p process") auto
    show ?thesis
    proof (cases e)
      case (Some x)
      with d False show ?thesis
        by (simp add: withProcesses_loop_Cons dc)
    next
      case None
      note ih2 = Cons.IH(2) [OF False d [unfolded None]]
      obtain e1 done2 s2 where r1:
        "withProcesses_loop p procs fn (insert (Name process) done) s = (e1, done2, s2)"
        by (cases "withProcesses_loop p procs fn (insert (Name process) done) s") auto
      show ?thesis
      proof (cases e1)
        case (Some x)
        with d None False r1 ih2 show ?thesis
          by (simp add: withProcesses_loop_Cons dc)
      next
        case None1: None
        obtain e3 s3 where f: "fn process s2 = (e3, s3)" by (cases "fn process s2") auto
        show ?thesis
        proof (cases e3)
          case (Some x)
          with d None False r1 ih2 None1 f show ?thesis
            by (simp add: withProcesses_loop_Cons dc)
        next
          case None3: None
          note ih3 = Cons.IH(3)
            [OF False d [unfolded None] r1 [unfolded None1] f [unfolded None3]]
          have l: "withProcesses_loop p (process # rest) fn done s
              = withProcesses_loop p rest fn done2 s3"
            using d None False r1 None1 f None3 by (simp add: withProcesses_loop_Cons)
          have "withProcesses_loop p' (process # rest) fn done s
              = withProcesses_loop p' rest fn done2 s3"
            using d None False r1 None1 f None3 ih2 dc by (simp add: withProcesses_loop_Cons)
          with l ih3 show ?thesis by simp
        qed
      qed
    qed
  qed
qed

lemma WithProcesses_cong:
  assumes "Processes p' = Processes p"
  shows "WithProcesses p' names fn s = WithProcesses p names fn s"
  unfolding WithProcesses_def withProcesses_def getProcesses_cong [OF assms]
    withProcesses_loop_cong [OF assms] ..


lemma runProcess_registered:
  assumes "runningProcesses p = Some m"
  shows "runProcess p proc =
    Inr (p\<lparr>runningProcesses :=
              Some (m(Name proc \<mapsto> NewProcess (Environment p) proc (processStates p (Name proc)) 1)),
           tasks := tasks p @ [NewProcess (Environment p) proc (processStates p (Name proc)) 1]\<rparr>)"
  using assms
  by (simp add: runProcess_def addRunningProcess_def GetProcessState_def GetName_def
      NewProcess_def Let_def)

lemma runProcesses_registered:
  "runningProcesses p = Some m \<Longrightarrow>
   \<exists>p' m'. runProcesses p runOrder = Inr p'
     \<and> tasks p' = tasks p
          @ map (\<lambda>proc. NewProcess (Environment p) proc (processStates p (Name proc)) 1) runOrder
     \<and> runningProcesses p' = Some m' \<and> dom m' = dom m \<union> Name ` set runOrder
     \<and> Processes p' = Processes p \<and> Environment p' = Environment p
     \<and> processStates p' = processStates p"
proof (induction runOrder arbitrary: p m)
  case Nil
  then show ?case by simp
next
  case (Cons proc runOrder)
  let ?h = "NewProcess (Environment p) proc (processStates p (Name proc)) 1"
  let ?p1 = "p\<lparr>runningProcesses := Some (m(Name proc \<mapsto> ?h)), tasks := tasks p @ [?h]\<rparr>"
  have r: "runProcess p proc = Inr ?p1" by (rule runProcess_registered [OF Cons.prems])
  have "runningProcesses ?p1 = Some (m(Name proc \<mapsto> ?h))" by simp
  from Cons.IH [OF this] obtain p' m' where
    a: "runProcesses ?p1 runOrder = Inr p'"
       "tasks p' = tasks ?p1
          @ map (\<lambda>proc. NewProcess (Environment ?p1) proc (processStates ?p1 (Name proc)) 1)
              runOrder"
       "runningProcesses p' = Some m'" "dom m' = dom (m(Name proc \<mapsto> ?h)) \<union> Name ` set runOrder"
       "Processes p' = Processes ?p1" "Environment p' = Environment ?p1"
       "processStates p' = processStates ?p1"
    by blast
  have "runProcesses p (proc # runOrder) = Inr p'" using r a(1) by simp
  moreover have "tasks p' = tasks p
      @ map (\<lambda>proc. NewProcess (Environment p) proc (processStates p (Name proc)) 1)
          (proc # runOrder)"
    using a(2) by simp
  moreover have "dom m' = dom m \<union> Name ` set (proc # runOrder)" using a(4) by auto
  moreover have "Processes p' = Processes p" "Environment p' = Environment p"
    "processStates p' = processStates p" using a(5,6,7) by simp_all
  ultimately show ?case using a(3) by blast
qed

subsection \<open>Facts about the concrete projects\<close>

lemma ab_ba_same: "sameProject ab_project ba_project"
  by (auto simp: sameProject_def entries_def ab_project_def ba_project_def project_def config_def)

lemma chain_enabled: "enabled chain_project n = (n = ''c'' \<or> n = ''b'' \<or> n = ''a'')"
  by (simp add: enabled_def chain_project_def project_def config_def)

lemma chain_declared: "declared chain_project n = (n = ''c'' \<or> n = ''b'' \<or> n = ''a'' \<or> n = ''d'')"
  by (simp add: declared_def chain_project_def project_def config_def)

lemma chain_dependencies:
  "dependencies chain_project n =
     (if n = ''c'' then [''b''] else if n = ''b'' then [''a'', ''d'']
      else if n = ''a'' then [] else if n = ''d'' then [''zz''] else [])"
  by (simp add: dependencies_def chain_project_def project_def config_def GetDependencies_def)


lemma chain_deps_declared:
  "\<forall>n \<in> reachable chain_project []. \<forall>d \<in> set (dependencies chain_project n).
      declared chain_project d"
proof (intro ballI)
  fix n d assume n: "n \<in> reachable chain_project []"
    and d: "d \<in> set (dependencies chain_project n)"
  from n have "enabled chain_project n" by (rule reachable_enabled)
  then have "n = ''c'' \<or> n = ''b'' \<or> n = ''a''" by (simp only: chain_enabled)
  then show "declared chain_project d"
  proof (elim disjE)
    assume "n = ''c''"
    with d show ?thesis by (simp add: chain_dependencies chain_declared)
  next
    assume "n = ''b''"
    with d show ?thesis by (auto simp: chain_dependencies chain_declared)
  next
    assume "n = ''a''"
    with d show ?thesis by (simp add: chain_dependencies)
  qed
qed

lemma chain_acyclic: "acyclic (dependsOn chain_project)"
proof (rule acyclicI_order)
  fix a b assume "(a, b) \<in> dependsOn chain_project"
  then have e: "a = ''c'' \<or> a = ''b'' \<or> a = ''a''" "b \<in> set (dependencies chain_project a)"
    "b = ''c'' \<or> b = ''b'' \<or> b = ''a''"
    by (simp_all add: dependsOn_def chain_enabled)
  from e(1) show "chain_rank b < chain_rank a"
  proof (elim disjE)
    assume "a = ''c''"
    with e(2) show ?thesis by (simp add: chain_dependencies chain_rank_def)
  next
    assume "a = ''b''"
    with e(2,3) show ?thesis by (auto simp: chain_dependencies chain_rank_def)
  next
    assume "a = ''a''"
    with e(2) show ?thesis by (simp add: chain_dependencies)
  qed
qed

lemma chain_value: "GetDependenciesOrderNames chain_project = ([''a'', ''b'', ''c''], None)"
  by (simp add: chain_project_def walk_eval)


lemma dangling_bad:
  "\<exists>n \<in> reachable dangling_project [].
      \<exists>d \<in> set (dependencies dangling_project n). \<not> declared dangling_project d"
proof -
  have "''c'' \<in> roots dangling_project []"
    by (simp add: roots_def enabled_def dangling_project_def project_def config_def)
  with roots_reachable have "''c'' \<in> reachable dangling_project []" by blast
  moreover have "''zz'' \<in> set (dependencies dangling_project ''c'')"
    by (simp add: dependencies_def dangling_project_def project_def config_def
        GetDependencies_def)
  moreover have "\<not> declared dangling_project ''zz''"
    by (simp add: declared_def dangling_project_def project_def config_def)
  ultimately show ?thesis by blast
qed

lemma disabled_dep_no_edge: "dependsOn disabled_dep_project = {}"
proof -
  have "\<not> enabled disabled_dep_project b" if "b \<in> set (dependencies disabled_dep_project a)"
    "enabled disabled_dep_project a" for a b
    using that
    by (auto simp: enabled_def dependencies_def disabled_dep_project_def project_def config_def
        GetDependencies_def split: if_splits)
  then show ?thesis by (auto simp: dependsOn_def)
qed

section \<open>Properties of the walker\<close>

text \<open>
  C4.  The walk is started on a project whose names are unique, with a visitor that never
  returns an error (as the closures of \<^verbatim>\<open>Run\<close> and \<^verbatim>\<open>GetDependenciesOrderNames\<close>).
  If some non-disabled process that the walk reaches from the starting names has a
  dependency name that is not declared, the walk returns the error "no such process" for
  an undeclared name.  If the starting names and all the dependency names of the processes
  reached are declared, disabled or not, the walk returns no error.
  \<^verbatim>\<open>GetDependenciesOrderNames\<close> returns the error of the walk from the empty list.
\<close>

theorem walk_error_iff_undeclared_dependency:
  assumes keys: "distinct (map fst (Processes p))"
    and nf: "neverFails fn"
    and w: "WithProcesses p names fn s = (err, s')"
  shows "((\<exists>n \<in> reachable p names. \<exists>d \<in> set (dependencies p n). \<not> declared p d) \<longrightarrow>
            (\<exists>d. err = Some (NoSuchProcess d) \<and> \<not> declared p d))
    \<and> ((\<forall>n \<in> set names. declared p n)
          \<and> (\<forall>n \<in> reachable p names. \<forall>d \<in> set (dependencies p n). declared p d) \<longrightarrow>
        err = None)
    \<and> (names = [] \<longrightarrow> snd (GetDependenciesOrderNames p) = err)"
proof -
  obtain err0 out where a: "WithProcesses p names appendProcess [] = (err0, out)"
    by (cases "WithProcesses p names appendProcess []") auto
  from WithProcesses_fold [OF nf a, of s] w have e: "err0 = err" by simp
  note cases = WithProcesses_appendProcess_walks [OF keys a, unfolded e]
  have 1: "\<exists>d. err = Some (NoSuchProcess d) \<and> \<not> declared p d"
    if bad: "\<exists>n \<in> reachable p names. \<exists>d \<in> set (dependencies p n). \<not> declared p d"
    using cases
  proof
    assume "\<exists>n \<in> set names. err = Some (NoSuchProcess n) \<and> \<not> declared p n \<and> out = []"
    then show ?thesis by blast
  next
    assume "\<exists>procs done'. (\<forall>q \<in> set procs. resolved p q) \<and> Name ` set procs = roots p names
          \<and> (\<forall>n \<in> set names. declared p n) \<and> walks p procs {} (err, done', out)"
    then obtain procs done' where r: "\<forall>q \<in> set procs. resolved p q"
      and ro: "Name ` set procs = roots p names" and wk: "walks p procs {} (err, done', out)"
      by blast
    show ?thesis
    proof (cases err)
      case None
      from bad obtain n d where "n \<in> reachable p names" "d \<in> set (dependencies p n)"
        "\<not> declared p d" by blast
      with top_no_error [OF r ro wk [unfolded None]] show ?thesis by blast
    next
      case (Some x)
      from top_error [OF r ro wk [unfolded Some]] Some show ?thesis by blast
    qed
  qed
  have 2: "err = None"
    if ok: "(\<forall>n \<in> set names. declared p n)
          \<and> (\<forall>n \<in> reachable p names. \<forall>d \<in> set (dependencies p n). declared p d)"
    using cases
  proof
    assume "\<exists>n \<in> set names. err = Some (NoSuchProcess n) \<and> \<not> declared p n \<and> out = []"
    with ok show ?thesis by blast
  next
    assume "\<exists>procs done'. (\<forall>q \<in> set procs. resolved p q) \<and> Name ` set procs = roots p names
          \<and> (\<forall>n \<in> set names. declared p n) \<and> walks p procs {} (err, done', out)"
    then obtain procs done' where r: "\<forall>q \<in> set procs. resolved p q"
      and ro: "Name ` set procs = roots p names" and wk: "walks p procs {} (err, done', out)"
      by blast
    show ?thesis
    proof (cases err)
      case None
      then show ?thesis .
    next
      case (Some x)
      from top_error [OF r ro wk [unfolded Some]] ok show ?thesis by blast
    qed
  qed
  have 3: "snd (GetDependenciesOrderNames p) = err" if "names = []"
    using GetDependenciesOrderNames_appendProcess [of p err out] a e that by simp
  from 1 2 3 show ?thesis by blast
qed

theorem walk_error_iff_undeclared_dependency_witness:
  "fst (WithProcesses chain_project [] appendName []) = None
   \<and> (\<exists>d. fst (WithProcesses dangling_project [] appendName []) = Some (NoSuchProcess d)
          \<and> \<not> declared dangling_project d)"
proof -
  obtain e1 s1 where w1: "WithProcesses chain_project [] appendName [] = (e1, s1)"
    by (cases "WithProcesses chain_project [] appendName []") auto
  obtain e2 s2 where w2: "WithProcesses dangling_project [] appendName [] = (e2, s2)"
    by (cases "WithProcesses dangling_project [] appendName []") auto
  have k1: "distinct (map fst (Processes chain_project))"
    and k2: "distinct (map fst (Processes dangling_project))"
    by (simp_all add: chain_project_def dangling_project_def project_def)
  have ok: "(\<forall>n \<in> set ([] :: string list). declared chain_project n)
      \<and> (\<forall>n \<in> reachable chain_project []. \<forall>d \<in> set (dependencies chain_project n).
            declared chain_project d)"
    using chain_deps_declared by simp
  from walk_error_iff_undeclared_dependency [OF k1 neverFails_appendName w1] ok
  have "e1 = None" by blast
  moreover from walk_error_iff_undeclared_dependency [OF k2 neverFails_appendName w2]
    dangling_bad
  have "\<exists>d. e2 = Some (NoSuchProcess d) \<and> \<not> declared dangling_project d" by blast
  ultimately show ?thesis using w1 w2 by simp
qed

text \<open>
  C2, as the code has it.  Take a project whose names are unique and whose dependencies
  between non-disabled processes are acyclic, starting names that are declared, and let
  every dependency name of a process reached from them be declared.  Then the walk returns
  no error, and there is a sequence \<open>out\<close> of processes such that: the visitor (any
  visitor that never returns an error) has been called on the processes of \<open>out\<close>, in
  this order, and on nothing else; \<open>out\<close> holds each non-disabled process reachable from
  the starting names through non-disabled processes exactly once; no process of \<open>out\<close>
  is disabled; every process of \<open>out\<close> comes after each of its dependencies that is not
  disabled; and \<^verbatim>\<open>GetDependenciesOrderNames\<close> returns the names of \<open>out\<close>.
\<close>

theorem walk_visits_reachable_in_order:
  assumes keys: "distinct (map fst (Processes p))"
    and ac: "acyclic (dependsOn p)"
    and nd: "\<forall>n \<in> set names. declared p n"
    and dd: "\<forall>n \<in> reachable p names. \<forall>d \<in> set (dependencies p n). declared p d"
    and nf: "neverFails fn"
  shows "\<exists>out. WithProcesses p names fn s = (None, visitAll fn s out)
    \<and> WithProcesses p names appendProcess [] = (None, out)
    \<and> distinct (map Name out)
    \<and> Name ` set out = reachable p names
    \<and> (\<forall>q \<in> set out. \<not> Disabled q \<and> enabled p (Name q))
    \<and> (\<forall>i < length out. \<forall>d \<in> set (GetDependencies (out ! i)).
          enabled p d \<longrightarrow> (\<exists>j < i. Name (out ! j) = d))
    \<and> (names = [] \<longrightarrow> GetDependenciesOrderNames p = (map Name out, None))"
proof -
  obtain err out where a: "WithProcesses p names appendProcess [] = (err, out)"
    by (cases "WithProcesses p names appendProcess []") auto
  from WithProcesses_appendProcess_walks [OF keys a] nd
  obtain procs done' where r: "\<forall>q \<in> set procs. resolved p q"
    and ro: "Name ` set procs = roots p names" and wk: "walks p procs {} (err, done', out)"
    by blast
  have e: "err = None"
  proof (cases err)
    case (Some x)
    from top_error [OF r ro wk [unfolded Some]] dd show ?thesis by blast
  qed simp
  note wk' = wk [unfolded e]
  have 1: "WithProcesses p names fn s = (None, visitAll fn s out)"
    using WithProcesses_fold [OF nf a] e by simp
  have 2: "WithProcesses p names appendProcess [] = (None, out)"
    using a e by simp
  have 3: "distinct (map Name out)" by (rule top_distinct [OF wk'])
  have 4: "Name ` set out = reachable p names" by (rule top_all_reachable [OF r ro wk'])
  have 5: "\<forall>q \<in> set out. \<not> Disabled q \<and> enabled p (Name q)"
    using top_resolved [OF r wk'] resolved_not_disabled resolved_enabled by blast
  have 6: "\<forall>i < length out. \<forall>d \<in> set (GetDependencies (out ! i)).
          enabled p d \<longrightarrow> (\<exists>j < i. Name (out ! j) = d)"
    using depsBefore_nth [OF top_order [OF ac r wk']] by blast
  have 7: "names = [] \<longrightarrow> GetDependenciesOrderNames p = (map Name out, None)"
    using GetDependenciesOrderNames_appendProcess [of p None out] 2 by auto
  from 1 2 3 4 5 6 7 show ?thesis by blast
qed

theorem walk_visits_reachable_in_order_witness:
  "GetDependenciesOrderNames chain_project = ([''a'', ''b'', ''c''], None)
   \<and> set (fst (GetDependenciesOrderNames chain_project)) = reachable chain_project []"
proof -
  have k: "distinct (map fst (Processes chain_project))"
    by (simp add: chain_project_def project_def)
  have nd: "\<forall>n \<in> set ([] :: string list). declared chain_project n" by simp
  from walk_visits_reachable_in_order
    [OF k chain_acyclic nd chain_deps_declared neverFails_appendName, of "[]"]
  obtain out :: "ProcessConfig list" where o: "Name ` set out = reachable chain_project []"
    "GetDependenciesOrderNames chain_project = (map Name out, None)"
    by blast
  have "set (fst (GetDependenciesOrderNames chain_project)) = set (map Name out)"
    by (simp only: o(2) fst_conv)
  also have "\<dots> = Name ` set out" by (rule set_map)
  also note o(1)
  finally have "set (fst (GetDependenciesOrderNames chain_project)) = reachable chain_project []" .
  with chain_value show ?thesis by (rule conjI)
qed

text \<open>
  The claim C2 as it is stated fails.  In the first project \<open>a\<close> depends on \<open>b\<close>, which
  is declared and disabled: the graph is acyclic and \<open>a\<close> is visited, though its
  dependency \<open>b\<close> never is.  In the second project \<open>c\<close> depends on an undeclared name:
  the graph is acyclic, the starting list is empty, and the non-disabled process \<open>c\<close> is
  never visited.
\<close>

theorem walk_disabled_or_undeclared_dependency_counterexample:
  "GetDependenciesOrderNames disabled_dep_project = ([''a''], None)
   \<and> acyclic (dependsOn disabled_dep_project)
   \<and> map Disabled (map snd (Processes disabled_dep_project)) = [False, True]
   \<and> GetDependenciesOrderNames dangling_project = ([''a''], Some (NoSuchProcess ''zz''))"
proof -
  have "GetDependenciesOrderNames disabled_dep_project = ([''a''], None)"
    by (simp add: disabled_dep_project_def walk_eval)
  moreover have "acyclic (dependsOn disabled_dep_project)"
    by (simp add: disabled_dep_no_edge acyclic_def)
  moreover have "map Disabled (map snd (Processes disabled_dep_project)) = [False, True]"
    by (simp add: disabled_dep_project_def project_def config_def)
  moreover have "GetDependenciesOrderNames dangling_project
      = ([''a''], Some (NoSuchProcess ''zz''))"
    by (simp add: dangling_project_def walk_eval)
  ultimately show ?thesis by blast
qed

text \<open>
  C3, as the code has it.  The recursion of \<^verbatim>\<open>withProcesses\<close> ends on every input,
  with or without a cycle: every argument of the loop lies in the accessible part of the
  relation between an argument and its recursive calls.  A process is marked in
  \<^verbatim>\<open>done\<close> before the walk recurses on its dependencies, so the recursion stops at a
  process already marked.  On every project with unique names, the visitor is called on
  non-disabled declared processes only, on each at most once, so no more often than there
  are processes.
\<close>

theorem walk_terminates_on_every_input:
  "withProcesses_loop_dom (p, procs, fn, done, s)
   \<and> (distinct (map fst (Processes p))
        \<and> WithProcesses p names appendProcess [] = (err, out) \<longrightarrow>
      distinct (map Name out) \<and> (\<forall>q \<in> set out. enabled p (Name q))
      \<and> length out \<le> length (Processes p))"
proof -
  have dom: "withProcesses_loop_dom (p, procs, fn, done, s)"
    using withProcesses_loop_total by blast
  have vis: "distinct (map Name out) \<and> (\<forall>q \<in> set out. enabled p (Name q))
      \<and> length out \<le> length (Processes p)"
    if keys: "distinct (map fst (Processes p))"
      and w: "WithProcesses p names appendProcess [] = (err, out)"
    using WithProcesses_appendProcess_walks [OF keys w]
  proof
    assume "\<exists>n \<in> set names. err = Some (NoSuchProcess n) \<and> \<not> declared p n \<and> out = []"
    then show ?thesis by auto
  next
    assume "\<exists>procs done'. (\<forall>q \<in> set procs. resolved p q) \<and> Name ` set procs = roots p names
          \<and> (\<forall>n \<in> set names. declared p n) \<and> walks p procs {} (err, done', out)"
    then obtain procs done' where r: "\<forall>q \<in> set procs. resolved p q"
      and wk: "walks p procs {} (err, done', out)"
      by blast
    have d: "distinct (map Name out)" by (rule top_distinct [OF wk])
    have e: "\<forall>q \<in> set out. enabled p (Name q)"
      using top_resolved [OF r wk] resolved_enabled by blast
    then have "set (map Name out) \<subseteq> fst ` set (Processes p)"
      using enabled_in_keys by auto
    then have "card (set (map Name out)) \<le> card (fst ` set (Processes p))"
      by (intro card_mono) auto
    also have "\<dots> \<le> card (set (Processes p))" by (intro card_image_le) simp
    also have "\<dots> \<le> length (Processes p)" by (rule card_length)
    finally have "length out \<le> length (Processes p)"
      using distinct_card [OF d] by simp
    with d e show ?thesis by blast
  qed
  from dom vis show ?thesis by blast
qed

theorem walk_terminates_on_every_input_witness:
  "distinct (map Name (snd (WithProcesses cyclic_project [] appendProcess [])))
   \<and> length (snd (WithProcesses cyclic_project [] appendProcess [])) \<le> 2"
proof -
  obtain err out where w: "WithProcesses cyclic_project [] appendProcess [] = (err, out)"
    by (cases "WithProcesses cyclic_project [] appendProcess []") auto
  have k: "distinct (map fst (Processes cyclic_project))"
    and l: "length (Processes cyclic_project) = 2"
    by (simp_all add: cyclic_project_def project_def)
  from walk_terminates_on_every_input
    [where p = cyclic_project and procs = "[]" and fn = appendProcess and ?done = "{}"
       and s = "[]" and names = "[]" and err = err and out = out] k w l
  have "distinct (map Name out) \<and> length out \<le> 2" by simp
  with w show ?thesis by simp
qed

text \<open>
  The claim C3 as it is stated fails: \<open>a\<close> and \<open>b\<close>, declared and not disabled, depend
  on each other, and the walk returns, with \<open>b\<close> before \<open>a\<close>.
\<close>

theorem walk_cycle_terminates_counterexample:
  "GetDependenciesOrderNames cyclic_project = ([''b'', ''a''], None)
   \<and> (''a'', ''b'') \<in> dependsOn cyclic_project
   \<and> (''b'', ''a'') \<in> dependsOn cyclic_project"
  by (simp add: cyclic_project_def walk_eval dependsOn_def enabled_def dependencies_def)


text \<open>
  C8, as the code has it.  Two runs over the same project with the same starting names
  may enumerate the Go maps in different orders.  When one run returns no error, so does
  the other, and the two outputs hold the same names, each once; their order may
  differ.
\<close>

theorem walk_same_names_any_order:
  assumes same: "sameProject p p'"
    and w: "WithProcesses p names appendName [] = (None, out)"
  shows "\<exists>out'. WithProcesses p' names appendName [] = (None, out')
    \<and> distinct out \<and> distinct out' \<and> set out = set out'"
proof -
  from same have k: "distinct (map fst (Processes p))" and k': "distinct (map fst (Processes p'))"
    unfolding sameProject_def by blast+
  obtain e t where a: "WithProcesses p names appendProcess [] = (e, t)"
    by (cases "WithProcesses p names appendProcess []") auto
  from WithProcesses_appendName [OF a] w have e: "e = None" and o: "out = map Name t"
    by simp_all
  from WithProcesses_appendProcess_walks [OF k a] e
  obtain procs done' where r: "\<forall>q \<in> set procs. resolved p q"
    and ro: "Name ` set procs = roots p names" and nd: "\<forall>n \<in> set names. declared p n"
    and wk: "walks p procs {} (None, done', t)"
    by auto
  have d: "distinct out" unfolding o by (rule top_distinct [OF wk])
  have s: "set out = reachable p names"
    unfolding o using top_all_reachable [OF r ro wk] by simp
  have dd: "declared p d" if "n \<in> reachable p names" "d \<in> set (dependencies p n)" for n d
    using top_no_error [OF r ro wk that] .
  obtain e' t' where a': "WithProcesses p' names appendProcess [] = (e', t')"
    by (cases "WithProcesses p' names appendProcess []") auto
  from WithProcesses_appendProcess_walks [OF k' a']
  have "e' = None \<and> distinct (map Name t') \<and> set (map Name t') = reachable p' names"
  proof
    assume "\<exists>n \<in> set names. e' = Some (NoSuchProcess n) \<and> \<not> declared p' n \<and> t' = []"
    with nd sameProject_declared [OF same] show ?thesis by blast
  next
    assume "\<exists>procs done'. (\<forall>q \<in> set procs. resolved p' q)
          \<and> Name ` set procs = roots p' names
          \<and> (\<forall>n \<in> set names. declared p' n) \<and> walks p' procs {} (e', done', t')"
    then obtain procs' done'' where r': "\<forall>q \<in> set procs'. resolved p' q"
      and ro': "Name ` set procs' = roots p' names"
      and wk': "walks p' procs' {} (e', done'', t')"
      by blast
    have n: "e' = None"
    proof (cases e')
      case (Some x)
      from top_error [OF r' ro' wk' [unfolded Some]]
      obtain n d where "n \<in> reachable p' names" "d \<in> set (dependencies p' n)"
        "\<not> declared p' d" by blast
      with dd [of n d] sameProject_reachable [OF same, of names]
        sameProject_dependencies [OF same, of d n] sameProject_declared [OF same, of d]
      show ?thesis by simp
    qed simp
    from top_distinct [OF wk'] top_all_reachable [OF r' ro' wk' [unfolded n]] n
    show ?thesis by simp
  qed
  with WithProcesses_appendName [OF a'] sameProject_reachable [OF same, of names] s d
  have "WithProcesses p' names appendName [] = (None, map Name t')
    \<and> distinct out \<and> distinct (map Name t') \<and> set out = set (map Name t')"
    by simp
  then show ?thesis by (rule exI)
qed

theorem walk_same_names_any_order_witness:
  "\<exists>out'. WithProcesses ba_project [] appendName [] = (None, out')
     \<and> distinct [''a'', ''b''] \<and> distinct out' \<and> set [''a'', ''b''] = set out'"
proof -
  have "WithProcesses ab_project [] appendName [] = (None, [''a'', ''b''])"
    by (simp add: ab_project_def walk_eval)
  from walk_same_names_any_order [OF ab_ba_same this] show ?thesis .
qed

text \<open>
  The claim C8 as it is stated fails: the same two processes, enumerated in the two
  possible orders, give two different output sequences from the empty starting list.
\<close>

theorem walk_order_depends_on_enumeration_counterexample:
  "set (Processes ab_project) = set (Processes ba_project)
   \<and> GetDependenciesOrderNames ab_project = ([''a'', ''b''], None)
   \<and> GetDependenciesOrderNames ba_project = ([''b'', ''a''], None)"
  by (auto simp: ab_project_def ba_project_def walk_eval)


text \<open>
  C10.  Whatever the walk returns, error or not, \<^verbatim>\<open>Run\<close> does not fail: it reaches
  \<^verbatim>\<open>p.wg.Wait()\<close> after it has spawned, in this order, one task with attempt counter 1
  for each process that the walk appended to \<^verbatim>\<open>runOrder\<close>, and no other; the registry
  then holds exactly the names of these processes.  Every process of \<^verbatim>\<open>runOrder\<close> has
  only declared dependency names: a process with an undeclared one is never launched.
\<close>

theorem Run_discards_walk_error:
  assumes keys: "distinct (map fst (Processes p))"
    and w: "WithProcesses p [] appendProcess [] = (err, runOrder)"
  shows "\<exists>p' m. Run p = Inr p'
    \<and> tasks p' = tasks p
         @ map (\<lambda>proc. NewProcess (Environment p) proc
                  (GetProcessState (initProcessStates p) (Name proc)) 1) runOrder
    \<and> runningProcesses p' = Some m \<and> dom m = Name ` set runOrder
    \<and> (\<forall>proc \<in> set runOrder. \<forall>d \<in> set (GetDependencies proc). declared p d)"
proof -
  let ?p2 = "(initProcessStates p)\<lparr>runningProcesses := Some Map.empty\<rparr>"
  have pp: "Processes ?p2 = Processes p" by (simp add: initProcessStates_def)
  from WithProcesses_cong [OF pp, of "[]" appendProcess "[]"] w
  have ro: "snd (WithProcesses ?p2 [] appendProcess []) = runOrder" by simp
  have "runningProcesses ?p2 = Some Map.empty" by simp
  from runProcesses_registered [OF this, of runOrder]
  obtain p' m where a: "runProcesses ?p2 runOrder = Inr p'"
    "tasks p' = tasks ?p2
       @ map (\<lambda>proc. NewProcess (Environment ?p2) proc (processStates ?p2 (Name proc)) 1) runOrder"
    "runningProcesses p' = Some m" "dom m = dom (Map.empty :: string \<rightharpoonup> Process) \<union> Name ` set runOrder"
    by blast
  have 1: "Run p = Inr p'"
    using a(1) ro by (simp add: Run_def Let_def)
  have 2: "tasks p' = tasks p
         @ map (\<lambda>proc. NewProcess (Environment p) proc
                  (GetProcessState (initProcessStates p) (Name proc)) 1) runOrder"
    using a(2) by (simp add: initProcessStates_def GetProcessState_def)
  have 3: "dom m = Name ` set runOrder" using a(4) by simp
  have 4: "\<forall>proc \<in> set runOrder. \<forall>d \<in> set (GetDependencies proc). declared p d"
    using WithProcesses_appendProcess_walks [OF keys w]
  proof
    assume "\<exists>n \<in> set []. err = Some (NoSuchProcess n) \<and> \<not> declared p n \<and> runOrder = []"
    then show ?thesis by simp
  next
    assume "\<exists>procs done'. (\<forall>q \<in> set procs. resolved p q) \<and> Name ` set procs = roots p []
          \<and> (\<forall>n \<in> set []. declared p n) \<and> walks p procs {} (err, done', runOrder)"
    then obtain procs done' where r: "\<forall>q \<in> set procs. resolved p q"
      and wk: "walks p procs {} (err, done', runOrder)" by blast
    from top_resolved [OF r wk] show ?thesis by blast
  qed
  from 1 2 a(3) 3 4 show ?thesis by blast
qed

theorem Run_discards_walk_error_witness:
  "fst (WithProcesses dangling_project [] appendProcess []) = Some (NoSuchProcess ''zz'')
   \<and> map fst (Processes dangling_project) = [''a'', ''c'']
   \<and> (\<exists>p'. Run dangling_project = Inr p' \<and> map GetName (tasks p') = [''a''])"
proof -
  have k: "distinct (map fst (Processes dangling_project))"
    and n: "map fst (Processes dangling_project) = [''a'', ''c'']"
    and t: "tasks dangling_project = []"
    by (simp_all add: dangling_project_def project_def)
  have w: "WithProcesses dangling_project [] appendProcess []
      = (Some (NoSuchProcess ''zz''), [(config False [])\<lparr>Name := ''a''\<rparr>])"
    by (simp add: dangling_project_def walk_eval)
  from Run_discards_walk_error [OF k w] obtain p' where
    p: "Run dangling_project = Inr p'"
    "tasks p' = tasks dangling_project
         @ map (\<lambda>proc. NewProcess (Environment dangling_project) proc
                  (GetProcessState (initProcessStates dangling_project) (Name proc)) 1)
             [(config False [])\<lparr>Name := ''a''\<rparr>]"
    by blast
  from p(2) t have "map GetName (tasks p') = [''a'']"
    by (simp add: GetName_def NewProcess_def)
  with p(1) w n show ?thesis by simp
qed

section \<open>Properties of the supervisor and of the auto-discovery\<close>

lemma findFiles_filter:
  "findFiles exists join names pwd = filter exists (map (join pwd) names)"
  by (induction names) (simp_all add: Let_def)

lemma hd_filter_first:
  "i < length xs \<Longrightarrow> P (xs ! i) \<Longrightarrow> (\<forall>j<i. \<not> P (xs ! j)) \<Longrightarrow> hd (filter P xs) = xs ! i"
proof (induction xs arbitrary: i)
  case Nil
  then show ?case by simp
next
  case (Cons x xs)
  show ?case
  proof (cases i)
    case 0
    with Cons.prems show ?thesis by simp
  next
    case (Suc k)
    with Cons.prems have nx: "\<not> P x" by auto
    have "\<forall>j<k. \<not> P (xs ! j)"
    proof (intro allI impI)
      fix j assume "j < k"
      then have "Suc j < i" using Suc by simp
      with Cons.prems(3) have "\<not> P ((x # xs) ! Suc j)" by blast
      then show "\<not> P (xs ! j)" by simp
    qed
    with Cons.IH [of k] Cons.prems Suc have "hd (filter P xs) = xs ! k" by simp
    with nx Suc show ?thesis by simp
  qed
qed

text \<open>
  C9.  Let the existing candidates be the four default names, joined to \<open>pwd\<close>, that
  exist, in the order of \<^verbatim>\<open>DefaultFileNames\<close>.  If there is none,
  \<^verbatim>\<open>AutoDiscoverComposeFile\<close> returns the error and the empty file name, and logs
  nothing.  If the \<open>i\<close>-th default name exists and none before it does, the function
  returns that file and no error.  If more than one candidate exists, it logs a warning that
  lists all the existing candidates, separated by commas, and a second line that names the
  file it returns; with at most one candidate it logs no warning.
\<close>

theorem AutoDiscoverComposeFile_spec:
  fixes exists :: "string \<Rightarrow> bool" and join :: "string \<Rightarrow> string \<Rightarrow> string"
  defines "existing \<equiv> \<lambda>pwd. filter exists (map (join pwd) DefaultFileNames)"
  shows
  "(existing pwd = [] \<longrightarrow>
      AutoDiscoverComposeFile exists join pwd = ([], Some (NoConfigFiles pwd), []))
   \<and> (i < length DefaultFileNames \<and> exists (join pwd (DefaultFileNames ! i))
        \<and> (\<forall>j<i. \<not> exists (join pwd (DefaultFileNames ! j))) \<longrightarrow>
      fst (AutoDiscoverComposeFile exists join pwd) = join pwd (DefaultFileNames ! i)
      \<and> fst (snd (AutoDiscoverComposeFile exists join pwd)) = None)
   \<and> (length (existing pwd) > 1 \<longrightarrow>
      snd (snd (AutoDiscoverComposeFile exists join pwd)) =
        [''Found multiple config files with supported names: ''
           @ strings_Join (existing pwd) '', '',
         ''Using '' @ fst (AutoDiscoverComposeFile exists join pwd)])
   \<and> (length (existing pwd) \<le> 1 \<longrightarrow>
      snd (snd (AutoDiscoverComposeFile exists join pwd)) = [])"
proof -
  let ?r = "AutoDiscoverComposeFile exists join pwd"
  let ?xs = "map (join pwd) DefaultFileNames"
  have none: "?r = ([], Some (NoConfigFiles pwd), [])" if "existing pwd = []"
    using that by (simp add: AutoDiscoverComposeFile_def findFiles_filter existing_def)
  have first: "fst ?r = join pwd (DefaultFileNames ! i) \<and> fst (snd ?r) = None"
    if a: "i < length DefaultFileNames \<and> exists (join pwd (DefaultFileNames ! i))
        \<and> (\<forall>j<i. \<not> exists (join pwd (DefaultFileNames ! j)))"
  proof -
    have "hd (filter exists ?xs) = ?xs ! i"
      using a by (intro hd_filter_first) auto
    moreover have "?xs ! i \<in> set (filter exists ?xs)"
      using a by simp
    then have "filter exists ?xs \<noteq> []"
      by (metis empty_iff empty_set)
    ultimately show ?thesis
      using a by (simp add: AutoDiscoverComposeFile_def findFiles_filter Let_def)
  qed
  have ff: "findFiles exists join DefaultFileNames pwd = existing pwd"
    by (simp only: findFiles_filter existing_def)
  have many: "snd (snd ?r) =
        [''Found multiple config files with supported names: ''
           @ strings_Join (existing pwd) '', '', ''Using '' @ fst ?r]"
    if "length (existing pwd) > 1"
  proof -
    from that have "length (existing pwd) > 0" by linarith
    with that show ?thesis
      by (simp only: AutoDiscoverComposeFile_def ff Let_def if_True fst_conv snd_conv)
  qed
  have few: "snd (snd ?r) = []" if "length (existing pwd) \<le> 1"
  proof -
    from that have "\<not> length (existing pwd) > 1" by linarith
    then show ?thesis
      by (simp only: AutoDiscoverComposeFile_def ff Let_def if_False fst_conv snd_conv split: if_split)
        simp
  qed
  from none first many few show ?thesis by blast
qed

theorem AutoDiscoverComposeFile_spec_witness:
  "AutoDiscoverComposeFile (\<lambda>f. False) demo_join ''/w'' = ([], Some (NoConfigFiles ''/w''), [])
   \<and> fst (AutoDiscoverComposeFile demo_exists demo_join ''/w'') = ''/w/compose.yml''
   \<and> fst (snd (AutoDiscoverComposeFile demo_exists demo_join ''/w'')) = None
   \<and> snd (snd (AutoDiscoverComposeFile demo_exists demo_join ''/w'')) =
       [''Found multiple config files with supported names: /w/compose.yml, /w/process-compose.yaml'',
        ''Using /w/compose.yml'']
   \<and> snd (snd (AutoDiscoverComposeFile (\<lambda>f. f = ''/w/compose.yaml'') demo_join ''/w'')) = []"
proof -
  have e: "filter demo_exists (map (demo_join ''/w'') DefaultFileNames)
      = [''/w/compose.yml'', ''/w/process-compose.yaml'']"
    by (simp add: demo_exists_def demo_join_def DefaultFileNames_def)
  have h0: "0 < length DefaultFileNames \<and> demo_exists (demo_join ''/w'' (DefaultFileNames ! 0))
      \<and> (\<forall>j<0::nat. \<not> demo_exists (demo_join ''/w'' (DefaultFileNames ! j)))"
    by (simp add: demo_exists_def demo_join_def DefaultFileNames_def)
  have n: "filter (\<lambda>f. False) (map (demo_join ''/w'') DefaultFileNames) = []"
    by simp
  have o: "length (filter (\<lambda>f. f = ''/w/compose.yaml'') (map (demo_join ''/w'') DefaultFileNames)) \<le> 1"
    by (simp add: demo_join_def DefaultFileNames_def)
  from AutoDiscoverComposeFile_spec [of "\<lambda>f. False" demo_join "''/w''" 0] n
  have 1: "AutoDiscoverComposeFile (\<lambda>f. False) demo_join ''/w'' = ([], Some (NoConfigFiles ''/w''), [])"
    by blast
  from AutoDiscoverComposeFile_spec [of demo_exists demo_join "''/w''" 0] h0
  have 2: "fst (AutoDiscoverComposeFile demo_exists demo_join ''/w'') = ''/w/compose.yml''
     \<and> fst (snd (AutoDiscoverComposeFile demo_exists demo_join ''/w'')) = None"
    by (simp add: demo_join_def DefaultFileNames_def)
  from AutoDiscoverComposeFile_spec [of demo_exists demo_join "''/w''" 0] e 2
  have 3: "snd (snd (AutoDiscoverComposeFile demo_exists demo_join ''/w'')) =
       [''Found multiple config files with supported names: /w/compose.yml, /w/process-compose.yaml'',
        ''Using /w/compose.yml'']"
    by simp
  from AutoDiscoverComposeFile_spec [of "\<lambda>f. f = ''/w/compose.yaml''" demo_join "''/w''" 0] o
  have 4: "snd (snd (AutoDiscoverComposeFile (\<lambda>f. f = ''/w/compose.yaml'') demo_join ''/w'')) = []"
    by blast
  from 1 2 3 4 show ?thesis by blast
qed

lemma waitIfNeeded_loop_events:
  "filter launches (fst (waitIfNeeded_loop p wait process ks)) = []"
proof (induction ks)
  case Nil
  show ?case by simp
next
  case (Cons k ks)
  obtain evs r where r: "waitIfNeeded_loop p wait process ks = (evs, r)"
    by (cases "waitIfNeeded_loop p wait process ks") auto
  with Cons show ?case
    by (simp split: option.splits ProcessCondition.splits outcome.splits)
qed

lemma waitIfNeeded_loop_error:
  "snd (waitIfNeeded_loop p wait process ks) = Returns r \<Longrightarrow>
   (r \<noteq> None) =
   (\<exists>k \<in> set ks. \<exists>h c. dependencyCondition process k = ProcessConditionCompletedSuccessfully
      \<and> getRunningProcess p k = Some h \<and> wait h (Name process) = Returns c \<and> c \<noteq> 0)"
proof (induction ks)
  case Nil
  then show ?case by simp
next
  case (Cons k ks)
  obtain evs r' where r: "waitIfNeeded_loop p wait process ks = (evs, r')"
    by (cases "waitIfNeeded_loop p wait process ks") auto
  show ?case
  proof (cases "getRunningProcess p k")
    case None
    with Cons show ?thesis by simp
  next
    case (Some h)
    show ?thesis
    proof (cases "dependencyCondition process k")
      case ProcessConditionCompleted
      with Some Cons r show ?thesis
        by (cases "wait h (Name process)") auto
    next
      case ProcessConditionCompletedSuccessfully
      with Some Cons r show ?thesis
        by (cases "wait h (Name process)") (auto split: if_splits)
    next
      case (ProcessConditionOther c)
      with Some Cons r show ?thesis by simp
    qed
  qed
qed

lemma waitIfNeeded_loop_returns:
  "\<forall>k \<in> set ks. \<forall>h. getRunningProcess p k = Some h \<longrightarrow> wait h (Name process) \<noteq> Blocks \<Longrightarrow>
   snd (waitIfNeeded_loop p wait process ks) \<noteq> Blocks"
proof (induction ks)
  case Nil
  show ?case by simp
next
  case (Cons k ks)
  obtain evs r' where r: "waitIfNeeded_loop p wait process ks = (evs, r')"
    by (cases "waitIfNeeded_loop p wait process ks") auto
  from Cons have ih: "r' \<noteq> Blocks" using r by simp
  show ?case
  proof (cases "getRunningProcess p k")
    case None
    with ih r show ?thesis by simp
  next
    case (Some h)
    with Cons.prems have "wait h (Name process) \<noteq> Blocks" by simp
    then obtain c where "wait h (Name process) = Returns c"
      by (cases "wait h (Name process)") auto
    with Some ih r show ?thesis
      by (simp split: ProcessCondition.splits)
  qed
qed

lemma dependencyCondition_successfully:
  "(k \<in> set (map fst (DependsOn process))
      \<and> dependencyCondition process k = ProcessConditionCompletedSuccessfully) =
   (\<exists>dep. map_of (DependsOn process) k = Some dep
      \<and> Condition dep = ProcessConditionCompletedSuccessfully)"
proof (cases "map_of (DependsOn process) k")
  case None
  then show ?thesis by (simp add: dependencyCondition_def)
next
  case (Some dep)
  then have "k \<in> set (map fst (DependsOn process))"
    by (metis domI dom_map_of_conv_image_fst set_map)
  with Some show ?thesis by (simp add: dependencyCondition_def)
qed

text \<open>
  C1, as the code has it.  A dependency is unmet when its condition is
  \<^verbatim>\<open>ProcessConditionCompletedSuccessfully\<close>, the registry holds a handle for it when the
  loop of \<^verbatim>\<open>waitIfNeeded\<close> reaches it, and \<^verbatim>\<open>WaitForCompletion\<close> on that handle
  returns a non-zero exit code.  When every wait that the task makes returns: if some
  dependency is unmet the only call among \<^verbatim>\<open>Run\<close> and \<^verbatim>\<open>WontRun\<close> that the task
  makes is \<^verbatim>\<open>WontRun\<close>, and if none is unmet it is \<^verbatim>\<open>Run\<close>.  When a wait does not
  return, the task calls neither.  The waits of the task all return if
  \<^verbatim>\<open>WaitForCompletion\<close> returns for every dependency that the registry holds.
\<close>

theorem task_runs_or_wont_run:
  fixes wait :: "Process \<Rightarrow> string \<Rightarrow> int outcome"
  defines "unmet \<equiv> \<lambda>p process.
    \<exists>k dep h c. map_of (DependsOn (procConf process)) k = Some dep
      \<and> Condition dep = ProcessConditionCompletedSuccessfully
      \<and> getRunningProcess p k = Some h
      \<and> wait h (GetName process) = Returns c \<and> c \<noteq> 0"
  defines "waits_return \<equiv> \<lambda>p process.
    snd (waitIfNeeded p wait (procConf process)) \<noteq> Blocks"
  shows
  "(waits_return p process \<and> unmet p process \<longrightarrow>
      filter launches (task p wait process) = [EvWontRun (GetName process)])
   \<and> (waits_return p process \<and> \<not> unmet p process \<longrightarrow>
      filter launches (task p wait process) = [EvRun (GetName process)])
   \<and> (\<not> waits_return p process \<longrightarrow> filter launches (task p wait process) = [])
   \<and> ((\<forall>k h. k \<in> fst ` set (DependsOn (procConf process)) \<and> getRunningProcess p k = Some h
          \<longrightarrow> wait h (GetName process) \<noteq> Blocks)
        \<longrightarrow> waits_return p process)"
proof -
  let ?w = "waitIfNeeded p wait (procConf process)"
  have ev: "filter launches (fst ?w) = []"
    by (simp add: waitIfNeeded_def waitIfNeeded_loop_events)
  have err: "(r \<noteq> None) = unmet p process" if "snd ?w = Returns r" for r
  proof -
    from that have "(r \<noteq> None) =
      (\<exists>k h c. (k \<in> set (map fst (DependsOn (procConf process)))
          \<and> dependencyCondition (procConf process) k = ProcessConditionCompletedSuccessfully)
        \<and> getRunningProcess p k = Some h \<and> wait h (Name (procConf process)) = Returns c
        \<and> c \<noteq> 0)"
      unfolding waitIfNeeded_def by (subst waitIfNeeded_loop_error) blast+
    then show ?thesis
      unfolding dependencyCondition_successfully unmet_def GetName_def by blast
  qed
  have ret: "waits_return p process"
    if "\<forall>k h. k \<in> fst ` set (DependsOn (procConf process)) \<and> getRunningProcess p k = Some h
          \<longrightarrow> wait h (GetName process) \<noteq> Blocks"
    unfolding waits_return_def waitIfNeeded_def
    using that by (intro waitIfNeeded_loop_returns) (auto simp: GetName_def)
  obtain evs r where w: "?w = (evs, r)"
    by (cases ?w) auto
  from ev w have evs: "filter launches evs = []" by simp
  have main: "(waits_return p process \<and> unmet p process \<longrightarrow>
      filter launches (task p wait process) = [EvWontRun (GetName process)])
   \<and> (waits_return p process \<and> \<not> unmet p process \<longrightarrow>
      filter launches (task p wait process) = [EvRun (GetName process)])
   \<and> (\<not> waits_return p process \<longrightarrow> filter launches (task p wait process) = [])"
  proof (cases r)
    case Blocks
    with w have "\<not> waits_return p process" by (simp add: waits_return_def)
    moreover from Blocks w evs have "filter launches (task p wait process) = []"
      by (simp add: task_def)
    ultimately show ?thesis by simp
  next
    case (Returns e)
    with w have wr: "waits_return p process" by (simp add: waits_return_def)
    from Returns w err [of e] have u: "(e \<noteq> None) = unmet p process" by simp
    show ?thesis
    proof (cases e)
      case None
      with u have "\<not> unmet p process" by simp
      moreover from None Returns w evs
      have "filter launches (task p wait process) = [EvRun (GetName process)]"
        by (simp add: task_def)
      ultimately show ?thesis using wr by simp
    next
      case (Some x)
      with u have "unmet p process" by simp
      moreover from Some Returns w evs
      have "filter launches (task p wait process) = [EvWontRun (GetName process)]"
        by (simp add: task_def)
      ultimately show ?thesis using wr by simp
    qed
  qed
  from main ret show ?thesis by blast
qed

theorem task_runs_or_wont_run_witness:
  "filter launches
     (task (running [] [handle ''a'' False []]) (returns_code 5)
        (handle ''b'' False [(''a'', ProcessConditionCompletedSuccessfully)]))
     = [EvWontRun ''b'']
   \<and> filter launches
     (task (running [] [handle ''a'' False []]) (returns_code 5)
        (handle ''b'' False [(''a'', ProcessConditionCompleted)]))
     = [EvRun ''b'']
   \<and> filter launches
     (task (running [] [handle ''a'' False []]) never_returns
        (handle ''b'' False [(''a'', ProcessConditionCompleted)]))
     = []"
proof -
  let ?p = "running [] [handle ''a'' False []]"
  let ?b = "handle ''b'' False [(''a'', ProcessConditionCompletedSuccessfully)]"
  let ?c = "handle ''b'' False [(''a'', ProcessConditionCompleted)]"
  have ra: "getRunningProcess ?p ''a'' = Some (handle ''a'' False [])"
    by (simp add: running_def getRunningProcess_def GetName_def handle_def NewProcess_def)
  have gb: "GetName ?b = ''b''" and gc: "GetName ?c = ''b''"
    by (simp_all add: GetName_def handle_def NewProcess_def)
  have u: "\<exists>k dep h c. map_of (DependsOn (procConf ?b)) k = Some dep
      \<and> Condition dep = ProcessConditionCompletedSuccessfully
      \<and> getRunningProcess ?p k = Some h \<and> returns_code 5 h (GetName ?b) = Returns c \<and> c \<noteq> 0"
    by (intro exI [of _ "''a''"] exI [of _ "\<lparr>Condition = ProcessConditionCompletedSuccessfully\<rparr>"]
        exI [of _ "handle ''a'' False []"] exI [of _ 5])
      (simp add: ra returns_code_def, simp add: handle_def NewProcess_def config_def)
  have n: "\<not> (\<exists>k dep h c. map_of (DependsOn (procConf ?c)) k = Some dep
      \<and> Condition dep = ProcessConditionCompletedSuccessfully
      \<and> getRunningProcess ?p k = Some h \<and> returns_code 5 h (GetName ?c) = Returns c \<and> c \<noteq> 0)"
    by (auto simp: handle_def NewProcess_def config_def split: if_splits)
  have wb: "snd (waitIfNeeded ?p (returns_code 5) (procConf ?b)) \<noteq> Blocks"
    and wc: "snd (waitIfNeeded ?p (returns_code 5) (procConf ?c)) \<noteq> Blocks"
    and wn: "\<not> snd (waitIfNeeded ?p never_returns (procConf ?c)) \<noteq> Blocks"
    using ra
    by (simp_all add: waitIfNeeded_def handle_def NewProcess_def config_def
        dependencyCondition_def returns_code_def never_returns_def)
  from task_runs_or_wont_run [where p = ?p and process = ?b and wait = "returns_code 5"] u wb gb
  have 1: "filter launches (task ?p (returns_code 5) ?b) = [EvWontRun ''b'']"
    by simp
  from task_runs_or_wont_run [where p = ?p and process = ?c and wait = "returns_code 5"] n wc gc
  have 2: "filter launches (task ?p (returns_code 5) ?c) = [EvRun ''b'']"
    by simp
  from task_runs_or_wont_run [where p = ?p and process = ?c and wait = never_returns] wn
  have 3: "filter launches (task ?p never_returns ?c) = []"
    by simp
  from 1 2 3 show ?thesis by blast
qed

text \<open>
  The claim C1 as it is stated fails: \<open>a\<close> depends on itself.  \<^verbatim>\<open>Run\<close> spawns the
  task of \<open>a\<close> after it has registered the handle of \<open>a\<close>, so the task finds its own
  handle and waits for it.  The handle becomes terminal only in \<^verbatim>\<open>Run\<close> or
  \<^verbatim>\<open>WontRun\<close>, which the task calls after the wait: the wait does not return, and the
  task calls neither of them.
\<close>

theorem task_self_dependency_counterexample:
  "Run self_dependent = Inr self_running
   \<and> tasks self_running = [self_handle]
   \<and> getRunningProcess self_running ''a'' = Some self_handle
   \<and> task self_running never_returns self_handle = [EvWaitForCompletion ''a'' ''a'']
   \<and> filter launches (task self_running never_returns self_handle) = []"
  by (simp add: Run_def self_dependent_def self_running_def self_handle_def self_state_def
      walk_eval initProcessStates_def runProcess_def addRunningProcess_def NewProcess_def
      GetProcessState_def GetName_def getRunningProcess_def task_def waitIfNeeded_def
      dependencyCondition_def never_returns_def Let_def)

text \<open>
  C7.  If the registry holds no handle for any key of \<^verbatim>\<open>DependsOn\<close>, whatever the
  conditions are and whatever \<^verbatim>\<open>WaitForCompletion\<close> would do, \<^verbatim>\<open>waitIfNeeded\<close> waits
  for nothing and returns no error, and the task calls \<^verbatim>\<open>Run\<close>, then its deferred
  calls.
\<close>

theorem waitIfNeeded_absent_dependencies:
  assumes "\<forall>k \<in> fst ` set (DependsOn (procConf process)). getRunningProcess p k = None"
  shows "waitIfNeeded p wait (procConf process) = ([], Returns None)
    \<and> task p wait process =
        [EvRun (GetName process), EvWgDone, EvRemoveRunningProcess (GetName process)]"
proof -
  have "\<forall>k \<in> set ks. getRunningProcess p k = None \<Longrightarrow>
      waitIfNeeded_loop p wait (procConf process) ks = ([], Returns None)" for ks
    by (induction ks) simp_all
  with assms have "waitIfNeeded p wait (procConf process) = ([], Returns None)"
    by (simp add: waitIfNeeded_def)
  then show ?thesis by (simp add: task_def)
qed

theorem waitIfNeeded_absent_dependencies_witness:
  "waitIfNeeded (running [] []) never_returns
      (procConf (handle ''a'' False [(''missing_sibling'', ProcessConditionCompletedSuccessfully)]))
     = ([], Returns None)
   \<and> task (running [] []) never_returns
        (handle ''a'' False [(''missing_sibling'', ProcessConditionCompletedSuccessfully)])
     = [EvRun ''a'', EvWgDone, EvRemoveRunningProcess ''a'']"
proof -
  let ?a = "handle ''a'' False [(''missing_sibling'', ProcessConditionCompletedSuccessfully)]"
  have h: "\<forall>k \<in> fst ` set (DependsOn (procConf ?a)). getRunningProcess (running [] []) k = None"
    by (simp add: running_def getRunningProcess_def)
  have g: "GetName ?a = ''a''"
    by (simp add: GetName_def handle_def NewProcess_def)
  from waitIfNeeded_absent_dependencies [OF h, where wait = never_returns] g show ?thesis
    by simp
qed

text \<open>
  C5, as the code has it.  \<^verbatim>\<open>StartProcess\<close> returns the error "already running" and
  leaves the project as it was exactly when the name is in the registry.  When the name is
  not in the registry, is declared, and the registry has been made, it returns no error,
  spawns one task, whose handle has attempt counter 1 and the declared configuration under
  that name, and registers the handle.  When the name is declared and the registry is
  still \<^verbatim>\<open>nil\<close>, it panics at the write to the registry and spawns nothing.  When the
  name is neither in the registry nor declared, it returns "no such process" and leaves
  the project as it was.
\<close>

theorem StartProcess_spec:
  "((StartProcess p name = Inr (Some (AlreadyRunning name), p))
      = (getRunningProcess p name \<noteq> None))
   \<and> (getRunningProcess p name = None \<and> map_of (Processes p) name = Some proc
        \<and> runningProcesses p = Some m \<longrightarrow>
        (\<exists>h p'. StartProcess p name = Inr (None, p')
              \<and> tasks p' = tasks p @ [h]
              \<and> replica h = 1 \<and> procConf h = proc\<lparr>Name := name\<rparr>
              \<and> runningProcesses p' = Some (m(name \<mapsto> h))))
   \<and> (map_of (Processes p) name = Some proc \<and> runningProcesses p = None \<longrightarrow>
        StartProcess p name = Inl AssignmentToNilMap)
   \<and> (getRunningProcess p name = None \<and> map_of (Processes p) name = None \<longrightarrow>
        StartProcess p name = Inr (Some (NoSuchProcess name), p))"
  by (auto simp: StartProcess_def getRunningProcess_def runProcess_def addRunningProcess_def
      NewProcess_def GetName_def Let_def split: option.splits sum.splits)

theorem StartProcess_spec_witness:
  "StartProcess (running [(''a'', config False [])] [handle ''a'' False []]) ''a''
     = Inr (Some (AlreadyRunning ''a''), running [(''a'', config False [])] [handle ''a'' False []])
   \<and> (\<exists>p'. StartProcess (running [(''a'', config False [])] []) ''a'' = Inr (None, p')
         \<and> tasks p' = [handle ''a'' False []]
         \<and> runningProcesses p' = Some [''a'' \<mapsto> handle ''a'' False []])
   \<and> StartProcess (project [(''a'', config False [])]) ''a'' = Inl AssignmentToNilMap
   \<and> StartProcess (running [(''a'', config False [])] []) ''b''
     = Inr (Some (NoSuchProcess ''b''), running [(''a'', config False [])] [])"
proof -
  let ?ps = "[(''a'', config False [])]"
  let ?p = "running ?ps [handle ''a'' False []]"
  let ?q = "running ?ps []"
  have r: "getRunningProcess ?p ''a'' \<noteq> None"
    by (simp add: running_def getRunningProcess_def GetName_def handle_def NewProcess_def)
  have a: "getRunningProcess ?q ''a'' = None \<and> map_of (Processes ?q) ''a'' = Some (config False [])
      \<and> runningProcesses ?q = Some Map.empty"
    by (simp add: running_def project_def getRunningProcess_def)
  have n: "map_of (Processes (project ?ps)) ''a'' = Some (config False [])
      \<and> runningProcesses (project ?ps) = None"
    by (simp add: project_def)
  have b: "getRunningProcess ?q ''b'' = None \<and> map_of (Processes ?q) ''b'' = None"
    by (simp add: running_def project_def getRunningProcess_def)
  from StartProcess_spec [of ?p "''a''"] r
  have 1: "StartProcess ?p ''a'' = Inr (Some (AlreadyRunning ''a''), ?p)"
    by blast
  from StartProcess_spec [of ?q "''a''" "config False []" Map.empty] a
  obtain h p' where h: "StartProcess ?q ''a'' = Inr (None, p')"
      "tasks p' = tasks ?q @ [h]" "replica h = 1" "procConf h = (config False [])\<lparr>Name := ''a''\<rparr>"
      "runningProcesses p' = Some [''a'' \<mapsto> h]"
    by blast
  have "StartProcess ?q ''a'' = Inr (None, p') \<Longrightarrow> tasks p' = [handle ''a'' False []]"
    by (auto simp: StartProcess_def getRunningProcess_def running_def project_def runProcess_def
        addRunningProcess_def handle_def GetName_def NewProcess_def GetProcessState_def Let_def)
  with h(1) have t: "tasks p' = [handle ''a'' False []]" by simp
  with h(2) have "h = handle ''a'' False []" by (simp add: running_def project_def)
  with h t have 2: "\<exists>p'. StartProcess ?q ''a'' = Inr (None, p')
         \<and> tasks p' = [handle ''a'' False []]
         \<and> runningProcesses p' = Some [''a'' \<mapsto> handle ''a'' False []]"
    by blast
  from StartProcess_spec [of "project ?ps" "''a''" "config False []"] n
  have 3: "StartProcess (project ?ps) ''a'' = Inl AssignmentToNilMap"
    by blast
  from StartProcess_spec [of ?q "''b''"] b
  have 4: "StartProcess ?q ''b'' = Inr (Some (NoSuchProcess ''b''), ?q)"
    by blast
  from 1 2 3 4 show ?thesis by blast
qed

text \<open>
  The claim C5 as it is stated fails on a project as \<^verbatim>\<open>CreateProject\<close> leaves it: the
  name is declared and not in the registry, and \<^verbatim>\<open>StartProcess\<close> panics.
\<close>

theorem StartProcess_nil_registry_counterexample:
  "runningProcesses (project [(''a'', config False [])]) = None
   \<and> map_of (Processes (project [(''a'', config False [])])) ''a'' = Some (config False [])
   \<and> StartProcess (project [(''a'', config False [])]) ''a'' = Inl AssignmentToNilMap"
  by (simp add: StartProcess_def project_def getRunningProcess_def runProcess_def
      addRunningProcess_def Let_def)

text \<open>
  C6.  When the name is not in the registry, \<^verbatim>\<open>StopProcess\<close> returns the error "not
  running" and calls \<^verbatim>\<open>stop\<close> on no handle; so it does after the task has removed the
  name from the registry.  When the registry holds a handle under the name, it calls
  \<^verbatim>\<open>stop\<close> on that handle and returns no error.
\<close>

theorem StopProcess_spec:
  "(getRunningProcess p name = None \<longrightarrow> StopProcess p name = (Some (NotRunning name), []))
   \<and> StopProcess (removeRunningProcess p name) name = (Some (NotRunning name), [])
   \<and> (getRunningProcess p name = Some h \<longrightarrow> StopProcess p name = (None, [h]))"
  by (simp add: StopProcess_def getRunningProcess_def removeRunningProcess_def
      split: option.splits)


theorem StopProcess_spec_witness:
  "StopProcess (project []) ''a'' = (Some (NotRunning ''a''), [])
   \<and> StopProcess (running [] []) ''a'' = (Some (NotRunning ''a''), [])
   \<and> StopProcess (running [] [handle ''a'' False []]) ''a'' = (None, [handle ''a'' False []])"
proof -
  let ?p = "running [] [handle ''a'' False []]"
  have n: "getRunningProcess (project []) ''a'' = None"
    and m: "getRunningProcess (running [] []) ''a'' = None"
    by (simp_all add: project_def running_def getRunningProcess_def)
  have r: "getRunningProcess ?p ''a'' = Some (handle ''a'' False [])"
    by (simp add: running_def getRunningProcess_def GetName_def handle_def NewProcess_def)
  from StopProcess_spec [of "project []" "''a''"] n
  have 1: "StopProcess (project []) ''a'' = (Some (NotRunning ''a''), [])" by blast
  from StopProcess_spec [of "running [] []" "''a''"] m
  have 2: "StopProcess (running [] []) ''a'' = (Some (NotRunning ''a''), [])" by blast
  from StopProcess_spec [of ?p "''a''" "handle ''a'' False []"] r
  have 3: "StopProcess ?p ''a'' = (None, [handle ''a'' False []])" by blast
  from 1 2 3 show ?thesis by blast
qed

end
